theory Spec2Isabelle
  imports Main "HOL-Library.Sublist" "HOL-Library.Char_ord" "HOL-Library.List_Lexorder"
    "HOL-Library.Product_Lexorder"
begin

section \<open>Python strings and regular expressions\<close>

text \<open>
  A Python \<open>str\<close> is a sequence of code points.  The embedding uses \<^typ>\<open>string\<close>, that is
  the code points below 256.  On these, \<^verbatim>\<open>\d\<close> of the \<open>re\<close> module is the ASCII digits and
  \<^verbatim>\<open>\s\<close> (as well as \<open>str.isspace\<close>, used by \<open>str.strip()\<close> and \<open>str.split()\<close>) is the set
  below.
\<close>

definition is_digit :: "char \<Rightarrow> bool" where
  "is_digit c = (48 \<le> (of_char c :: int) \<and> (of_char c :: int) \<le> 57)"

definition is_space :: "char \<Rightarrow> bool" where
  "is_space c = ((of_char c :: int) \<in> {9, 10, 11, 12, 13, 28, 29, 30, 31, 32, 133, 160})"

definition in_range :: "char \<Rightarrow> char \<Rightarrow> char \<Rightarrow> bool" where
  \<comment> \<open>the character class \<^verbatim>\<open>[a-b]\<close>\<close>
  "in_range a b c = ((of_char a :: int) \<le> of_char c \<and> (of_char c :: int) \<le> of_char b)"

definition py_strip :: "string \<Rightarrow> string" where
  \<comment> \<open>\<open>s.strip()\<close>\<close>
  "py_strip s = rev (dropWhile is_space (rev (dropWhile is_space s)))"

definition py_strip_chars :: "string \<Rightarrow> string \<Rightarrow> string" where
  \<comment> \<open>\<open>s.strip(chars)\<close>\<close>
  "py_strip_chars chars s =
     rev (dropWhile (\<lambda>c. c \<in> set chars) (rev (dropWhile (\<lambda>c. c \<in> set chars) s)))"

text \<open>
  A backtracking matcher maps the text at the current position to the list of texts that
  may remain after a match there, in the order in which the \<open>re\<close> engine tries them: the
  match that \<open>re\<close> reports is the head of that list.
\<close>

type_synonym matcher = "string \<Rightarrow> string list"

definition m_eps :: matcher where
  "m_eps s = [s]"

fun m_cls :: "(char \<Rightarrow> bool) \<Rightarrow> matcher" where
  "m_cls P [] = []"
| "m_cls P (c # cs) = (if P c then [cs] else [])"

definition m_chr :: "char \<Rightarrow> matcher" where
  "m_chr a = m_cls (\<lambda>c. c = a)"

definition m_then :: "matcher \<Rightarrow> matcher \<Rightarrow> matcher" where
  "m_then p q s = concat (map q (p s))"

definition m_or :: "matcher \<Rightarrow> matcher \<Rightarrow> matcher" where
  "m_or p q s = p s @ q s"

definition m_seq :: "matcher list \<Rightarrow> matcher" where
  "m_seq ps = foldr m_then ps m_eps"

definition m_str :: "string \<Rightarrow> matcher" where
  "m_str lit = m_seq (map m_chr lit)"

fun m_rep :: "(char \<Rightarrow> bool) \<Rightarrow> nat \<Rightarrow> nat \<Rightarrow> matcher" where
  \<comment> \<open>the greedy bounded repetition \<^verbatim>\<open>C{lo,hi}\<close> of a character class: longest first\<close>
  "m_rep P lo hi [] = (if lo = 0 then [[]] else [])"
| "m_rep P lo hi (c # cs) =
     (if 0 < hi \<and> P c then m_rep P (lo - 1) (hi - 1) cs else []) @
     (if lo = 0 then [c # cs] else [])"

fun m_star :: "(char \<Rightarrow> bool) \<Rightarrow> matcher" where
  \<comment> \<open>the greedy \<^verbatim>\<open>C*\<close> of a character class\<close>
  "m_star P [] = [[]]"
| "m_star P (c # cs) = (if P c then m_star P cs else []) @ [c # cs]"

definition m_plus :: "(char \<Rightarrow> bool) \<Rightarrow> matcher" where
  "m_plus P = m_then (m_cls P) (m_star P)"

fun m_lazy_star :: "(char \<Rightarrow> bool) \<Rightarrow> matcher" where
  \<comment> \<open>the non-greedy \<^verbatim>\<open>C*?\<close> of a character class: shortest first\<close>
  "m_lazy_star P [] = [[]]"
| "m_lazy_star P (c # cs) = (c # cs) # (if P c then m_lazy_star P cs else [])"

definition m_lazy_plus :: "(char \<Rightarrow> bool) \<Rightarrow> matcher" where
  "m_lazy_plus P = m_then (m_cls P) (m_lazy_star P)"

definition re_match :: "matcher \<Rightarrow> string \<Rightarrow> string option" where
  \<comment> \<open>\<open>re.match\<close>: what remains after the match at the start of the text, if there is one\<close>
  "re_match p s = (case p s of [] \<Rightarrow> None | r # _ \<Rightarrow> Some r)"

fun re_contains :: "matcher \<Rightarrow> string \<Rightarrow> bool" where
  \<comment> \<open>\<open>re.search(p, s) is not None\<close>, which is what \<open>Series.str.contains\<close> computes\<close>
  "re_contains p [] = (p [] \<noteq> [])"
| "re_contains p (c # cs) = (p (c # cs) \<noteq> [] \<or> re_contains p cs)"

definition matched :: "string \<Rightarrow> string \<Rightarrow> string" where
  \<comment> \<open>the text consumed between position \<open>s\<close> and the later position \<open>r\<close>\<close>
  "matched s r = take (length s - length r) s"

section \<open>preprocessor.py: the tokenizer\<close>

definition pattern :: matcher where
  \<comment> \<open>line 10: \<^verbatim>\<open>\d{1,2}/\d{1,2}/\d{2,4},\s\d{1,2}:\d{2}\s-\s\<close>\<close>
  "pattern = m_seq
     [m_rep is_digit 1 2, m_chr CHR ''/'', m_rep is_digit 1 2, m_chr CHR ''/'',
      m_rep is_digit 2 4, m_chr CHR '','', m_cls is_space,
      m_rep is_digit 1 2, m_chr CHR '':'', m_rep is_digit 2 2,
      m_cls is_space, m_chr CHR ''-'', m_cls is_space]"

text \<open>Every matcher built from the combinators leaves a suffix of its input.\<close>

definition leaves_suffix :: "matcher \<Rightarrow> bool" where
  "leaves_suffix p = (\<forall>s. \<forall>r \<in> set (p s). suffix r s)"

definition consumes :: "matcher \<Rightarrow> bool" where
  "consumes p = (\<forall>s. \<forall>r \<in> set (p s). strict_suffix r s)"

lemma leaves_suffix_eps: "leaves_suffix m_eps"
  by (simp add: leaves_suffix_def m_eps_def)

lemma consumes_cls: "consumes (m_cls P)"
  unfolding consumes_def
proof (intro allI ballI)
  fix s r assume "r \<in> set (m_cls P s)"
  then show "strict_suffix r s"
    by (cases s) (auto split: if_splits simp: strict_suffix_def suffix_Cons)
qed

lemma consumes_leaves: "consumes p \<Longrightarrow> leaves_suffix p"
  by (auto simp: consumes_def leaves_suffix_def strict_suffix_def)

lemma leaves_suffix_rep: "leaves_suffix (m_rep P lo hi)"
  unfolding leaves_suffix_def
proof (intro allI ballI)
  fix s r assume "r \<in> set (m_rep P lo hi s)"
  then show "suffix r s"
    by (induction s arbitrary: lo hi) (auto split: if_splits simp: suffix_Cons)
qed

lemma leaves_suffix_then:
  assumes "leaves_suffix p" "leaves_suffix q"
  shows "leaves_suffix (m_then p q)"
  using assms unfolding leaves_suffix_def m_then_def suffix_def
  by fastforce

lemma consumes_then1:
  assumes "consumes p" "leaves_suffix q"
  shows "consumes (m_then p q)"
  using assms unfolding leaves_suffix_def consumes_def m_then_def strict_suffix_def suffix_def
  by fastforce

lemma consumes_then2:
  assumes "leaves_suffix p" "consumes q"
  shows "consumes (m_then p q)"
  using assms unfolding leaves_suffix_def consumes_def m_then_def strict_suffix_def suffix_def
  by fastforce

lemma leaves_suffix_seq: "\<forall>p \<in> set ps. leaves_suffix p \<Longrightarrow> leaves_suffix (m_seq ps)"
  by (induction ps) (auto simp: m_seq_def leaves_suffix_eps leaves_suffix_then)

lemma m_seq_Cons: "m_seq (p # ps) = m_then p (m_seq ps)"
  by (simp add: m_seq_def)

lemma consumes_pattern: "consumes pattern"
  unfolding pattern_def m_seq_Cons [of "m_rep is_digit 1 2"] m_seq_Cons [of "m_chr CHR ''/''"]
  by (intro consumes_then2 consumes_then1 leaves_suffix_rep leaves_suffix_seq)
     (auto simp: m_chr_def leaves_suffix_rep consumes_leaves consumes_cls)

lemma re_match_pattern_shorter: "re_match pattern s = Some r \<Longrightarrow> length r < length s"
  using consumes_pattern unfolding consumes_def re_match_def
  by (auto split: list.splits dest!: spec [of _ s] simp: strict_suffix_def suffix_def)

function re_findall :: "string \<Rightarrow> string list" where
  \<comment> \<open>\<open>re.findall(pattern, data)\<close>: the matches found scanning from left to right\<close>
  "re_findall [] = []"
| "re_findall (c # cs) =
     (case re_match pattern (c # cs) of
        None \<Rightarrow> re_findall cs
      | Some r \<Rightarrow> matched (c # cs) r # re_findall r)"
  by pat_completeness auto
termination
  by (relation "measure length") (auto dest: re_match_pattern_shorter)

function re_split_from :: "string \<Rightarrow> string \<Rightarrow> string list" where
  \<comment> \<open>the scan of \<open>re.split\<close>; the first argument is the current piece, reversed\<close>
  "re_split_from piece [] = [rev piece]"
| "re_split_from piece (c # cs) =
     (case re_match pattern (c # cs) of
        None \<Rightarrow> re_split_from (c # piece) cs
      | Some r \<Rightarrow> rev piece # re_split_from [] r)"
  by pat_completeness auto
termination
  by (relation "measure (\<lambda>(piece, s). length s)") (auto dest: re_match_pattern_shorter)

definition re_split :: "string \<Rightarrow> string list" where
  \<comment> \<open>\<open>re.split(pattern, data)\<close>: the pieces of text between the matches\<close>
  "re_split data = re_split_from [] data"

section \<open>preprocessor.py: timestamps\<close>

text \<open>
  \<open>pd.to_datetime(column, format=...)\<close> parses every value with the regular expression
  that \<open>_strptime\<close> compiles from the format, and raises \<open>ValueError\<close> at the first
  value that does not match it, that has text left after the match, or whose day does not
  exist in its month.  A two-digit year up to 68 is in the 2000s, a later one in the 1900s.
\<close>

record datetime =
  dt_year :: int
  dt_month :: int
  dt_day :: int
  dt_hour :: int
  dt_minute :: int

datatype error =
  AttributeError  \<comment> \<open>the \<open>AttributeError\<close> of the \<open>.str\<close> accessor at line 23\<close>
| ParseError  \<comment> \<open>the \<open>ValueError\<close> of \<open>pd.to_datetime\<close>\<close>
| DateFormatNotRecognized  \<comment> \<open>the \<open>ValueError\<close> raised at line 32\<close>

definition directive :: "char \<Rightarrow> matcher" where
  \<comment> \<open>the expressions of \<open>_strptime\<close> for
     \<open>%m\<close>: \<^verbatim>\<open>1[0-2]|0[1-9]|[1-9]\<close>,
     \<open>%d\<close>: \<^verbatim>\<open>3[0-1]|[1-2]\d|0[1-9]|[1-9]| [1-9]\<close>,
     \<open>%y\<close>: \<^verbatim>\<open>\d\d\<close>,
     \<open>%H\<close>: \<^verbatim>\<open>2[0-3]|[0-1]\d|\d\<close> and
     \<open>%M\<close>: \<^verbatim>\<open>[0-5]\d|\d\<close>\<close>
  "directive c =
    (if c = CHR ''m'' then
       m_or (m_then (m_chr CHR ''1'') (m_cls (in_range CHR ''0'' CHR ''2'')))
      (m_or (m_then (m_chr CHR ''0'') (m_cls (in_range CHR ''1'' CHR ''9'')))
            (m_cls (in_range CHR ''1'' CHR ''9'')))
     else if c = CHR ''d'' then
       m_or (m_then (m_chr CHR ''3'') (m_cls (in_range CHR ''0'' CHR ''1'')))
      (m_or (m_then (m_cls (in_range CHR ''1'' CHR ''2'')) (m_cls is_digit))
      (m_or (m_then (m_chr CHR ''0'') (m_cls (in_range CHR ''1'' CHR ''9'')))
      (m_or (m_cls (in_range CHR ''1'' CHR ''9''))
            (m_then (m_chr CHR '' '') (m_cls (in_range CHR ''1'' CHR ''9''))))))
     else if c = CHR ''y'' then
       m_then (m_cls is_digit) (m_cls is_digit)
     else if c = CHR ''H'' then
       m_or (m_then (m_chr CHR ''2'') (m_cls (in_range CHR ''0'' CHR ''3'')))
      (m_or (m_then (m_cls (in_range CHR ''0'' CHR ''1'')) (m_cls is_digit))
            (m_cls is_digit))
     else
       m_or (m_then (m_cls (in_range CHR ''0'' CHR ''5'')) (m_cls is_digit))
            (m_cls is_digit))"

definition format_regex :: "char \<Rightarrow> char \<Rightarrow> string \<Rightarrow> ((string \<times> string \<times> string \<times> string \<times> string) \<times> string) list" where
  \<comment> \<open>the expression compiled from \<open>%a/%b/%y, %H:%M\<close>: the texts of its five groups and
     what remains after the match, in backtracking order\<close>
  "format_regex a b s =
     [((matched s r1, matched r2 r3, matched r4 r5, matched r7 r8, matched r9 r10), r10).
        r1 \<leftarrow> directive a s, r2 \<leftarrow> m_chr CHR ''/'' r1,
        r3 \<leftarrow> directive b r2, r4 \<leftarrow> m_chr CHR ''/'' r3,
        r5 \<leftarrow> directive CHR ''y'' r4, r6 \<leftarrow> m_chr CHR '','' r5,
        r7 \<leftarrow> m_plus is_space r6,
        r8 \<leftarrow> directive CHR ''H'' r7, r9 \<leftarrow> m_chr CHR '':'' r8,
        r10 \<leftarrow> directive CHR ''M'' r9]"

definition py_int :: "string \<Rightarrow> int" where
  \<comment> \<open>\<open>int(s)\<close> on a group of the expression above: decimal digits, after a blank at most\<close>
  "py_int s = foldl (\<lambda>n c. 10 * n + (of_char c - 48)) 0 (py_strip s)"

definition is_leap :: "int \<Rightarrow> bool" where
  "is_leap y = (y mod 4 = 0 \<and> (y mod 100 \<noteq> 0 \<or> y mod 400 = 0))"

definition days_in_month :: "int \<Rightarrow> int \<Rightarrow> int" where
  "days_in_month y m =
     (if m = 2 then (if is_leap y then 29 else 28)
      else if m \<in> {4, 6, 9, 11} then 30 else 31)"

definition strptime :: "char \<Rightarrow> char \<Rightarrow> string \<Rightarrow> datetime option" where
  \<comment> \<open>one value under the format \<open>%a/%b/%y, %H:%M\<close>, where \<open>a\<close>, \<open>b\<close> are \<open>m\<close>, \<open>d\<close> in
     either order; \<open>None\<close> where pandas raises\<close>
  "strptime a b val =
     (case format_regex a b val of
        [] \<Rightarrow> None
      | ((ga, gb, gy, gH, gM), rest) # _ \<Rightarrow>
          if rest \<noteq> [] then None
          else
            let mo = py_int (if a = CHR ''m'' then ga else gb);
                d = py_int (if a = CHR ''m'' then gb else ga);
                yy = py_int gy;
                y = (if yy \<le> 68 then 2000 + yy else 1900 + yy)
            in if days_in_month y mo < d then None
               else Some \<lparr>dt_year = y, dt_month = mo, dt_day = d,
                          dt_hour = py_int gH, dt_minute = py_int gM\<rparr>)"

fun to_datetime :: "char \<Rightarrow> char \<Rightarrow> string list \<Rightarrow> error + datetime list" where
  "to_datetime a b [] = Inr []"
| "to_datetime a b (v # vs) =
     (case strptime a b v of
        None \<Rightarrow> Inl ParseError
      | Some d \<Rightarrow>
          (case to_datetime a b vs of Inl e \<Rightarrow> Inl e | Inr ds \<Rightarrow> Inr (d # ds)))"

definition month_name :: "datetime \<Rightarrow> string" where
  "month_name d =
     [''January'', ''February'', ''March'', ''April'', ''May'', ''June'', ''July'',
      ''August'', ''September'', ''October'', ''November'', ''December''] ! nat (dt_month d - 1)"

definition ordered_days :: "string list" where
  "ordered_days =
     [''Monday'', ''Tuesday'', ''Wednesday'', ''Thursday'', ''Friday'', ''Saturday'', ''Sunday'']"

definition weekday :: "datetime \<Rightarrow> nat" where
  \<comment> \<open>the day of the week of a calendar date, Monday being 0\<close>
  "weekday d =
     (let y = (if dt_month d < 3 then dt_year d - 1 else dt_year d);
          t = [0, 3, 2, 5, 0, 3, 5, 1, 4, 6, 2, 4 :: int] ! nat (dt_month d - 1)
      in nat ((y + y div 4 - y div 100 + y div 400 + t + dt_day d + 6) mod 7))"

definition day_name :: "datetime \<Rightarrow> string" where
  "day_name d = ordered_days ! weekday d"

section \<open>preprocessor.py: sender and content\<close>

definition sender_regex :: "string \<Rightarrow> (string \<times> string) list" where
  \<comment> \<open>line 38: \<^verbatim>\<open>([\w\W]+?):\s\<close>; the text of the group and what remains after the match\<close>
  "sender_regex s =
     [(matched s r1, r3).
        r1 \<leftarrow> m_lazy_plus (\<lambda>c. True) s, r2 \<leftarrow> m_chr CHR '':'' r1, r3 \<leftarrow> m_cls is_space r2]"

fun re_split1_from :: "string \<Rightarrow> string \<Rightarrow> string list" where
  \<comment> \<open>\<open>re.split\<close> with \<open>maxsplit=1\<close> and one group: the piece before the first match, the
     group, and the rest; the text alone when nothing matches\<close>
  "re_split1_from piece [] =
     (case sender_regex [] of [] \<Rightarrow> [rev piece] | (g, r) # _ \<Rightarrow> [rev piece, g, r])"
| "re_split1_from piece (c # cs) =
     (case sender_regex (c # cs) of
        [] \<Rightarrow> re_split1_from (c # piece) cs
      | (g, r) # _ \<Rightarrow> [rev piece, g, r])"

definition classify :: "string \<Rightarrow> string \<times> string" where
  \<comment> \<open>the body of the loop at lines 37 to 44: the user and the message content\<close>
  "classify message =
     (let entry = re_split1_from [] message
      in if tl entry \<noteq> [] then (entry ! 1, entry ! 2)
         else (''group_notification'', entry ! 0))"

section \<open>preprocessor.py: the table\<close>

text \<open>
  A row of the DataFrame.  The last two columns do not exist in the table that
  \<open>preprocess\<close> returns (\<open>None\<close>); two functions of helper.py add them.
  The two lists of line 20 have the same length, so that \<open>pd.DataFrame\<close> does not
  raise.  When they are empty the columns are not columns of texts, and line 23 raises
  before any date is parsed.
\<close>

record row =
  date :: datetime
  user :: string
  message_content :: string
  is_media :: bool
  year :: int
  month :: string
  day :: int
  hour :: int
  minute :: int
  day_of_week :: string
  month_year :: "string option"
  day_name_col :: "string option"

definition make_row :: "string \<Rightarrow> datetime \<Rightarrow> row" where
  \<comment> \<open>lines 35 to 62 for one row\<close>
  "make_row raw_message d =
     (let (u, m) = classify raw_message
      in \<lparr>date = d, user = u, message_content = m,
          is_media = re_contains (m_str ''<Media omitted>'') m,
          year = dt_year d, month = month_name d, day = dt_day d,
          hour = dt_hour d, minute = dt_minute d, day_of_week = day_name d,
          month_year = None, day_name_col = None\<rparr>)"

definition str_strip :: "string list \<Rightarrow> error + string list" where
  \<comment> \<open>\<open>.str.strip()\<close> on a column that \<open>pd.DataFrame\<close> made from a list of texts.  The
     column of an empty list has the dtype \<open>float64\<close>, and \<open>.str\<close> raises on it\<close>
  "str_strip column = (if column = [] then Inl AttributeError else Inr (map py_strip column))"

definition raw_message_column :: "string \<Rightarrow> error + string list" where
  \<comment> \<open>lines 13, 20 and 23: the pieces after the first, as a column, stripped\<close>
  "raw_message_column data = str_strip (tl (re_split data))"

definition date_column :: "string \<Rightarrow> string list" where
  \<comment> \<open>lines 14 and 17: the matches, stripped of blanks and hyphens at both ends\<close>
  "date_column data = map (py_strip_chars '' - '') (re_findall data)"

definition preprocess :: "string \<Rightarrow> error + row list" where
  "preprocess data =
     (let dates = date_column data
      in case raw_message_column data of
           Inl e \<Rightarrow> Inl e
         | Inr raw_message \<Rightarrow>
             (case to_datetime CHR ''m'' CHR ''d'' dates of
                Inr ds \<Rightarrow> Inr (map2 make_row raw_message ds)
              | Inl _ \<Rightarrow>
                  (case to_datetime CHR ''d'' CHR ''m'' dates of
                     Inr ds \<Rightarrow> Inr (map2 make_row raw_message ds)
                   | Inl _ \<Rightarrow> Inl DateFormatNotRecognized)))"

section \<open>helper.py\<close>

text \<open>
  The functions of helper.py that draw a figure are modelled by the table the figure is
  drawn from.  A function that assigns a column of \<open>df\<close> returns, next to its result, the
  caller's table as the call leaves it: \<open>df[df['user'] == selected_user]\<close> is a new table,
  so the assignment reaches the caller's table only under \<open>'Overall'\<close>.
  \<open>groupby\<close> is the one of pandas 2, which sorts the keys and, on a categorical key, keeps
  the categories that do not occur.
\<close>

definition select_user :: "string \<Rightarrow> row list \<Rightarrow> row list" where
  \<comment> \<open>the first two lines of every function with a \<open>selected_user\<close>\<close>
  "select_user selected_user df =
     (if selected_user \<noteq> ''Overall'' then filter (\<lambda>r. user r = selected_user) df else df)"

fun py_split_from :: "string \<Rightarrow> string \<Rightarrow> string list" where
  \<comment> \<open>\<open>s.split()\<close>; the first argument is the current word, reversed\<close>
  "py_split_from w [] = (if w = [] then [] else [rev w])"
| "py_split_from w (c # cs) =
     (if is_space c then (if w = [] then [] else [rev w]) @ py_split_from [] cs
      else py_split_from (c # w) cs)"

definition py_split :: "string \<Rightarrow> string list" where
  "py_split s = py_split_from [] s"

definition link_pattern :: matcher where
  \<comment> \<open>line 18: \<^verbatim>\<open>http[s]?://|www\.\<close>\<close>
  "link_pattern =
     m_or (m_seq [m_str ''http'', m_rep (\<lambda>c. c = CHR ''s'') 0 1, m_str ''://''])
          (m_str ''www.'')"

definition fetch_stats :: "string \<Rightarrow> row list \<Rightarrow> nat \<times> nat \<times> nat \<times> nat" where
  "fetch_stats selected_user df =
     (let df = select_user selected_user df;
          num_messages = length df;
          words = sum_list (map (\<lambda>r. length (py_split (message_content r))) df);
          num_media_messages =
            length (filter (\<lambda>r. message_content r = ''<Media omitted>'') df);
          num_links =
            length (filter (\<lambda>r. re_contains link_pattern (message_content r)) df)
      in (num_messages, words, num_media_messages, num_links))"

definition unique :: "'a list \<Rightarrow> 'a list" where
  \<comment> \<open>\<open>Series.unique()\<close>: the distinct values in order of first appearance\<close>
  "unique xs = rev (remdups (rev xs))"

definition get_user_list :: "row list \<Rightarrow> string list" where
  "get_user_list df =
     (let user_list = unique (map user df);
          user_list = (if ''group_notification'' \<in> set user_list
                       then remove1 ''group_notification'' user_list else user_list);
          user_list = sort user_list
      in ''Overall'' # user_list)"


definition extract_emojis :: "(char \<Rightarrow> bool) \<Rightarrow> string \<Rightarrow> string" where
  \<comment> \<open>the first argument is membership in \<open>emoji.EMOJI_DATA\<close>\<close>
  "extract_emojis EMOJI_DATA message = filter EMOJI_DATA message"

definition emoji_analysis ::
  "(char \<Rightarrow> bool) \<Rightarrow> ((char \<times> nat) list \<Rightarrow> (char \<times> nat) list) \<Rightarrow> row list \<Rightarrow> string
     \<Rightarrow> nat \<times> (char \<times> nat) list" where
  \<comment> \<open>the second argument is \<open>sort_values(by='Count', ascending=False)\<close>, whose order
     among equal counts pandas leaves open\<close>
  "emoji_analysis EMOJI_DATA sort_values df selected_user =
     (let df = select_user selected_user df;
          emojis = concat (map (\<lambda>r. extract_emojis EMOJI_DATA (message_content r)) df);
          emoji_counts = map (\<lambda>e. (e, count_list emojis e)) (unique emojis);
          emoji_df = sort_values emoji_counts
      in (sum_list (map snd emoji_counts), emoji_df))"

definition groupby_size :: "'k::linorder list \<Rightarrow> ('k \<times> nat) list" where
  \<comment> \<open>\<open>groupby(key).size().reset_index()\<close>: the keys that occur, sorted, with the
     number of rows of each\<close>
  "groupby_size keys = map (\<lambda>k. (k, count_list keys k)) (sort (remdups keys))"

definition digit :: "int \<Rightarrow> char" where
  "digit n = char_of (48 + n)"

definition to_period_M :: "datetime \<Rightarrow> int \<times> int" where
  \<comment> \<open>\<open>.dt.to_period('M')\<close>: the month of the calendar, as year and month\<close>
  "to_period_M d = (dt_year d, dt_month d)"

definition strftime_Ym :: "int \<times> int \<Rightarrow> string" where
  \<comment> \<open>\<open>.dt.strftime('%Y-%m')\<close> of a month; the years of a pandas timestamp have four
     digits\<close>
  "strftime_Ym p =
     [digit (fst p div 1000 mod 10), digit (fst p div 100 mod 10),
      digit (fst p div 10 mod 10), digit (fst p mod 10), CHR ''-'',
      digit (snd p div 10 mod 10), digit (snd p mod 10)]"

definition plot_monthly_timeline ::
  "string \<Rightarrow> row list \<Rightarrow> (string \<times> nat) list \<times> row list" where
  "plot_monthly_timeline selected_user df =
     (let df' = select_user selected_user df;
          df' = map (\<lambda>r. r\<lparr>month_year := Some (strftime_Ym (to_period_M (date r)))\<rparr>) df';
          monthly_counts = groupby_size (map (\<lambda>r. the (month_year r)) df')
      in (monthly_counts, if selected_user \<noteq> ''Overall'' then df else df'))"

definition dt_date :: "datetime \<Rightarrow> int \<times> int \<times> int" where
  \<comment> \<open>\<open>.dt.date\<close>: the calendar date, ordered as \<open>datetime.date\<close> is\<close>
  "dt_date d = (dt_year d, dt_month d, dt_day d)"

definition plot_daily_timeline ::
  "string \<Rightarrow> row list \<Rightarrow> ((int \<times> int \<times> int) \<times> nat) list" where
  "plot_daily_timeline selected_user df =
     (let df = select_user selected_user df
      in groupby_size (map (\<lambda>r. dt_date (date r)) df))"

definition plot_interactive_activity_analysis ::
  "row list \<Rightarrow> string \<Rightarrow> ((string \<times> nat) list \<times> (int \<times> nat) list) \<times> row list" where
  "plot_interactive_activity_analysis df selected_user =
     (let df' = select_user selected_user df;
          day_order = [''Monday'', ''Tuesday'', ''Wednesday'', ''Thursday'', ''Friday'',
                       ''Saturday'', ''Sunday''];
          df' = map (\<lambda>r. r\<lparr>day_name_col :=
                   (if day_name (date r) \<in> set day_order then Some (day_name (date r))
                    else None)\<rparr>) df';
          weekly_activity =
            map (\<lambda>c. (c, length (filter (\<lambda>r. day_name_col r = Some c) df'))) day_order;
          hourly_activity = groupby_size (map (\<lambda>r. dt_hour (date r)) df')
      in ((weekly_activity, hourly_activity),
          if selected_user \<noteq> ''Overall'' then df else df'))"

text \<open>
  The pivot table is its list of columns and its rows, each an index value with one cell
  for every column; \<open>None\<close> is the cell \<open>NaN\<close>.
\<close>

definition pivot_count :: "row list \<Rightarrow> int list \<times> (string \<times> nat option list) list" where
  \<comment> \<open>\<open>pivot_table(index="day_of_week", columns="hour", values="message_content",
     aggfunc="count")\<close>\<close>
  "pivot_count df =
     (let cols = sort (remdups (map hour df))
      in (cols,
          map (\<lambda>i. (i, map (\<lambda>h.
                 let n = length (filter (\<lambda>r. day_of_week r = i \<and> hour r = h) df)
                 in if n = 0 then None else Some n) cols))
              (sort (remdups (map day_of_week df)))))"

definition fillna :: "nat \<Rightarrow> int list \<times> (string \<times> nat option list) list
    \<Rightarrow> int list \<times> (string \<times> nat option list) list" where
  "fillna v t =
     (fst t, map (\<lambda>(i, cells). (i, map (\<lambda>c. case c of None \<Rightarrow> Some v | Some n \<Rightarrow> Some n) cells))
               (snd t))"

definition reindex :: "string list \<Rightarrow> int list \<times> (string \<times> nat option list) list
    \<Rightarrow> int list \<times> (string \<times> nat option list) list" where
  \<comment> \<open>the rows in the order given; a label that the table does not have gets a row of
     \<open>NaN\<close>\<close>
  "reindex labels t =
     (fst t, map (\<lambda>l. case map_of (snd t) l of
                         Some cells \<Rightarrow> (l, cells)
                       | None \<Rightarrow> (l, map (\<lambda>_. None) (fst t))) labels)"

definition plot_activity_heatmap_matplotlib ::
  "row list \<Rightarrow> (int list \<times> (string \<times> nat option list) list) \<times> row list" where
  "plot_activity_heatmap_matplotlib df =
     (let df = map (\<lambda>r. r\<lparr>day_of_week := day_name (date r)\<rparr>) df;
          df = map (\<lambda>r. r\<lparr>hour := dt_hour (date r)\<rparr>) df;
          heatmap_data = fillna 0 (pivot_count df);
          ordered_days = [''Monday'', ''Tuesday'', ''Wednesday'', ''Thursday'', ''Friday'',
                          ''Saturday'', ''Sunday''];
          heatmap_data = reindex ordered_days heatmap_data
      in (heatmap_data, df))"

section \<open>Notions used in the properties\<close>

definition extends :: "matcher \<Rightarrow> bool" where
  \<comment> \<open>a match stays a match when text is added after the input\<close>
  "extends p = (\<forall>u v. \<forall>r \<in> set (p u). r @ v \<in> set (p (u @ v)))"

fun colon_space_in :: "string \<Rightarrow> bool" where
  \<comment> \<open>the text has a colon with a white space character right after it\<close>
  "colon_space_in [] = False"
| "colon_space_in (c # cs) =
     (c = CHR '':'' \<and> cs \<noteq> [] \<and> is_space (hd cs) \<or> colon_space_in cs)"

definition has_boundary :: "string \<Rightarrow> bool" where
  \<comment> \<open>such a colon stands after the first character of the text\<close>
  "has_boundary s = colon_space_in (tl s)"

fun boundaries :: "string \<Rightarrow> string \<Rightarrow> (string \<times> string) list" where
  \<comment> \<open>what \<open>sender_regex\<close> returns, by recursion over the text after the first
     character; the first argument is the text before the current position\<close>
  "boundaries p [] = []"
| "boundaries p (c # cs) =
     (if c = CHR '':'' \<and> cs \<noteq> [] \<and> is_space (hd cs) then [(p, tl cs)] else [])
     @ boundaries (p @ [c]) cs"

definition trimmed :: "string \<Rightarrow> bool" where
  \<comment> \<open>the text neither starts nor ends with a white space character\<close>
  "trimmed s = (s = [] \<or> \<not> is_space (hd s) \<and> \<not> is_space (last s))"

definition earlier_month :: "int \<times> int \<Rightarrow> int \<times> int \<Rightarrow> bool" where
  \<comment> \<open>calendar order of months, each a year and a month\<close>
  "earlier_month k k' = (fst k < fst k' \<or> fst k = fst k' \<and> snd k < snd k')"

definition earlier_day :: "int \<times> int \<times> int \<Rightarrow> int \<times> int \<times> int \<Rightarrow> bool" where
  \<comment> \<open>calendar order of days, each a year, a month and a day\<close>
  "earlier_day k k' =
     (fst k < fst k' \<or> fst k = fst k' \<and>
       (fst (snd k) < fst (snd k') \<or> fst (snd k) = fst (snd k') \<and> snd (snd k) < snd (snd k')))"


section \<open>Properties of the tokenizer\<close>

lemma no_match_findall: "\<not> re_contains pattern s \<Longrightarrow> re_findall s = []"
  by (induction s) (auto simp: re_match_def split: list.splits)

lemma no_match_split_from:
  "\<not> re_contains pattern s \<Longrightarrow> re_split_from piece s = [rev piece @ s]"
  by (induction s arbitrary: piece) (auto simp: re_match_def split: list.splits)

lemma re_match_pattern_split: "re_match pattern s = Some r \<Longrightarrow> matched s r @ r = s"
  using consumes_pattern unfolding consumes_def re_match_def
  by (auto split: list.splits dest!: spec [of _ s] simp: strict_suffix_def suffix_def matched_def)

lemma pattern_Nil: "pattern [] = []"
  using consumes_pattern unfolding consumes_def
  by (cases "pattern []") (auto dest!: spec [of _ "[]"])

lemma length_re_split_from: "length (re_split_from piece s) = Suc (length (re_findall s))"
  by (induction piece s rule: re_split_from.induct) (auto split: option.splits)

lemma re_split_from_concat:
  "hd (re_split_from piece s) @ concat (map2 (@) (re_findall s) (tl (re_split_from piece s)))
     = rev piece @ s"
proof (induction piece s rule: re_split_from.induct)
  case (1 piece)
  show ?case by simp
next
  case (2 piece c cs)
  show ?case
  proof (cases "re_match pattern (c # cs)")
    case None
    with 2 show ?thesis by simp
  next
    case (Some r)
    have ne: "re_split_from [] r \<noteq> []"
      using length_re_split_from [of "[]" r] by auto
    then obtain p ps where ps: "re_split_from [] r = p # ps" by (cases "re_split_from [] r") auto
    from 2(2) [OF Some] ps have "p @ concat (map2 (@) (re_findall r) ps) = r" by simp
    with Some ps re_match_pattern_split [OF Some] show ?thesis by simp
  qed
qed

lemma extends_eps: "extends m_eps"
  by (simp add: extends_def m_eps_def)

lemma extends_cls: "extends (m_cls P)"
  unfolding extends_def
proof (intro allI ballI)
  fix u v r assume "r \<in> set (m_cls P u)"
  then show "r @ v \<in> set (m_cls P (u @ v))" by (cases u) (auto split: if_splits)
qed

lemma extends_rep: "extends (m_rep P lo hi)"
  unfolding extends_def
proof (intro allI ballI)
  fix u v r assume "r \<in> set (m_rep P lo hi u)"
  then show "r @ v \<in> set (m_rep P lo hi (u @ v))"
  proof (induction u arbitrary: lo hi)
    case Nil
    then show ?case by (cases v) (auto split: if_splits)
  next
    case (Cons a u)
    then show ?case by (auto split: if_splits)
  qed
qed

lemma extends_then: "extends p \<Longrightarrow> extends q \<Longrightarrow> extends (m_then p q)"
  unfolding extends_def m_then_def by fastforce

lemma extends_seq: "\<forall>p \<in> set ps. extends p \<Longrightarrow> extends (m_seq ps)"
  by (induction ps) (auto simp: m_seq_def extends_eps extends_then)

lemma extends_pattern: "extends pattern"
  unfolding pattern_def
  by (rule extends_seq) (auto simp: m_chr_def extends_rep extends_cls)

lemma re_contains_iff: "re_contains p s \<longleftrightarrow> (\<exists>i \<le> length s. p (drop i s) \<noteq> [])"
proof (induction s)
  case Nil
  show ?case by simp
next
  case (Cons c cs)
  have "(\<exists>i \<le> length (c # cs). p (drop i (c # cs)) \<noteq> [])
        \<longleftrightarrow> (p (c # cs) \<noteq> [] \<or> (\<exists>i \<le> length cs. p (drop i cs) \<noteq> []))"
  proof
    assume "\<exists>i \<le> length (c # cs). p (drop i (c # cs)) \<noteq> []"
    then obtain i where i: "i \<le> length (c # cs)" "p (drop i (c # cs)) \<noteq> []" by blast
    show "p (c # cs) \<noteq> [] \<or> (\<exists>i \<le> length cs. p (drop i cs) \<noteq> [])"
    proof (cases i)
      case 0
      with i show ?thesis by simp
    next
      case (Suc j)
      with i show ?thesis by auto
    qed
  next
    assume "p (c # cs) \<noteq> [] \<or> (\<exists>i \<le> length cs. p (drop i cs) \<noteq> [])"
    then show "\<exists>i \<le> length (c # cs). p (drop i (c # cs)) \<noteq> []"
    proof
      assume "p (c # cs) \<noteq> []"
      then have "0 \<le> length (c # cs) \<and> p (drop 0 (c # cs)) \<noteq> []" by simp
      then show ?thesis by blast
    next
      assume "\<exists>i \<le> length cs. p (drop i cs) \<noteq> []"
      then obtain i where "i \<le> length cs" "p (drop i cs) \<noteq> []" by blast
      then have "Suc i \<le> length (c # cs) \<and> p (drop (Suc i) (c # cs)) \<noteq> []" by simp
      then show ?thesis by blast
    qed
  qed
  with Cons show ?case by simp
qed

lemma pieces_without_match:
  "(\<forall>i < length piece. pattern (drop i (rev piece) @ s) = []) \<Longrightarrow>
   \<forall>pc \<in> set (re_split_from piece s). \<not> re_contains pattern pc"
proof (induction piece s rule: re_split_from.induct)
  case (1 piece)
  have "\<not> re_contains pattern (rev piece)"
    unfolding re_contains_iff
  proof
    assume "\<exists>i \<le> length (rev piece). pattern (drop i (rev piece)) \<noteq> []"
    then obtain i where i: "i \<le> length piece" "pattern (drop i (rev piece)) \<noteq> []" by auto
    show False
    proof (cases "i = length piece")
      case True
      with i pattern_Nil show False by simp
    next
      case False
      with i have "i < length piece" by simp
      with 1 i show False by simp
    qed
  qed
  then show ?case by simp
next
  case (2 piece c cs)
  show ?case
  proof (cases "re_match pattern (c # cs)")
    case None
    then have nomatch: "pattern (c # cs) = []" by (simp add: re_match_def split: list.splits)
    have "\<forall>i < length (c # piece). pattern (drop i (rev (c # piece)) @ cs) = []"
    proof (intro allI impI)
      fix i assume "i < length (c # piece)"
      then consider "i < length piece" | "i = length piece" by fastforce
      then show "pattern (drop i (rev (c # piece)) @ cs) = []"
      proof cases
        case 1
        with 2(3) show ?thesis by simp
      next
        case 2
        with nomatch show ?thesis by simp
      qed
    qed
    from 2(1) [OF None this] None show ?thesis by simp
  next
    case (Some r)
    have "\<not> re_contains pattern (rev piece)"
      unfolding re_contains_iff
    proof
      assume "\<exists>i \<le> length (rev piece). pattern (drop i (rev piece)) \<noteq> []"
      then obtain i where i: "i \<le> length piece" "pattern (drop i (rev piece)) \<noteq> []" by auto
      show False
      proof (cases "i = length piece")
        case True
        with i pattern_Nil show False by simp
      next
        case False
        with i have lt: "i < length piece" by simp
        from i obtain r' where "r' \<in> set (pattern (drop i (rev piece)))"
          by (cases "pattern (drop i (rev piece))") auto
        with extends_pattern have "r' @ (c # cs) \<in> set (pattern (drop i (rev piece) @ (c # cs)))"
          unfolding extends_def by blast
        with 2(3) lt show False by auto
      qed
    qed
    moreover have "\<forall>pc \<in> set (re_split_from [] r). \<not> re_contains pattern pc"
      using 2(2) [OF Some] by simp
    ultimately show ?thesis using Some by simp
  qed
qed

lemma py_strip_decomp:
  "\<exists>l t. s = l @ py_strip s @ t \<and> (\<forall>c \<in> set l. is_space c) \<and> (\<forall>c \<in> set t. is_space c)"
proof -
  let ?l = "takeWhile is_space s"
  let ?m = "dropWhile is_space s"
  let ?t = "rev (takeWhile is_space (rev ?m))"
  have "s = ?l @ ?m" by simp
  moreover have "rev ?m = takeWhile is_space (rev ?m) @ dropWhile is_space (rev ?m)" by simp
  then have "?m = py_strip s @ ?t"
    unfolding py_strip_def by (metis rev_append rev_rev_ident)
  ultimately have "s = ?l @ py_strip s @ ?t" by simp
  moreover have "\<forall>c \<in> set ?l. is_space c" by (auto dest: set_takeWhileD)
  moreover have "\<forall>c \<in> set ?t. is_space c" by (auto dest: set_takeWhileD)
  ultimately show ?thesis by blast
qed

lemma to_datetime_all:
  "to_datetime a b vs =
     (if \<forall>v \<in> set vs. strptime a b v \<noteq> None then Inr (map (\<lambda>v. the (strptime a b v)) vs)
      else Inl ParseError)"
  by (induction vs) (auto split: option.splits sum.splits)

lemma last_dropWhile: "dropWhile P xs \<noteq> [] \<Longrightarrow> last (dropWhile P xs) = last xs"
proof -
  assume n: "dropWhile P xs \<noteq> []"
  have "last xs = last (takeWhile P xs @ dropWhile P xs)" by simp
  also have "\<dots> = last (dropWhile P xs)" using n by (rule last_appendR)
  finally show ?thesis by simp
qed

lemma py_strip_trimmed: "trimmed (py_strip s)"
proof (cases "py_strip s = []")
  case True
  then show ?thesis by (simp add: trimmed_def)
next
  case False
  let ?m = "dropWhile is_space s"
  let ?k = "dropWhile is_space (rev ?m)"
  from False have k: "?k \<noteq> []" by (simp add: py_strip_def)
  have m: "?m \<noteq> []"
  proof
    assume "?m = []"
    then have "?k = []" by (simp only: rev.simps dropWhile.simps)
    with k show False by blast
  qed
  have "last (py_strip s) = hd ?k" using k by (simp add: py_strip_def last_rev)
  moreover have "\<not> is_space (hd ?k)" using k by (rule hd_dropWhile)
  moreover have "hd (py_strip s) = last ?k" using k by (simp add: py_strip_def hd_rev)
  moreover have "last ?k = last (rev ?m)" using k by (rule last_dropWhile)
  moreover have "last (rev ?m) = hd ?m" using m by (simp add: last_rev)
  moreover have "\<not> is_space (hd ?m)" using m by (rule hd_dropWhile)
  ultimately show ?thesis by (simp add: trimmed_def)
qed

lemma raw_message_column_eq:
  "raw_message_column data =
     (if re_findall data = [] then Inl AttributeError
      else Inr (map py_strip (tl (re_split data))))"
proof -
  have "length (tl (re_split data)) = length (re_findall data)"
    by (simp add: re_split_def length_re_split_from)
  then have "tl (re_split data) = [] \<longleftrightarrow> re_findall data = []"
    by (metis length_0_conv)
  then show ?thesis by (simp add: raw_message_column_def str_strip_def)
qed

lemma preprocess_Inr:
  assumes "preprocess data = Inr df"
  shows "re_findall data \<noteq> [] \<and>
    (\<exists>a b ds. (a = CHR ''m'' \<and> b = CHR ''d'' \<or> a = CHR ''d'' \<and> b = CHR ''m'')
       \<and> to_datetime a b (date_column data) = Inr ds
       \<and> df = map2 make_row (map py_strip (tl (re_split data))) ds)"
proof (cases "re_findall data = []")
  case True
  with assms show ?thesis by (simp add: preprocess_def raw_message_column_eq)
next
  case False
  with assms show ?thesis
    unfolding preprocess_def Let_def raw_message_column_eq
    by (simp split: sum.splits) blast+
qed

lemma preprocess_length:
  assumes "preprocess data = Inr df"
  shows "length df = length (re_findall data)"
proof -
  from preprocess_Inr [OF assms] obtain a b ds where
    ds: "to_datetime a b (date_column data) = Inr ds"
    and df: "df = map2 make_row (map py_strip (tl (re_split data))) ds"
    by blast
  from ds have "length ds = length (date_column data)"
    unfolding to_datetime_all by (auto split: if_splits)
  moreover have "length (tl (re_split data)) = length (re_findall data)"
    by (simp add: re_split_def length_re_split_from)
  ultimately show ?thesis by (simp add: df date_column_def)
qed

text \<open>
  C9, as the code has it: when the delimiter pattern matches at no position of the input,
  \<open>preprocess\<close> raises the \<open>AttributeError\<close> of line 23 and returns no table.  No input
  makes it return a table without rows.
\<close>

theorem preprocess_no_delimiter:
  "(\<not> re_contains pattern data \<longrightarrow> preprocess data = Inl AttributeError)
   \<and> preprocess data \<noteq> Inr []"
proof
  show "\<not> re_contains pattern data \<longrightarrow> preprocess data = Inl AttributeError"
    by (simp add: preprocess_def raw_message_column_eq no_match_findall)
  show "preprocess data \<noteq> Inr []"
  proof
    assume e: "preprocess data = Inr []"
    from preprocess_Inr [OF e] have "re_findall data \<noteq> []" by blast
    moreover from preprocess_length [OF e] have "re_findall data = []" by simp
    ultimately show False by blast
  qed
qed

theorem preprocess_no_delimiter_witness:
  "\<not> re_contains pattern ''Messages and calls are end-to-end encrypted.''
   \<and> preprocess ''Messages and calls are end-to-end encrypted.'' = Inl AttributeError"
proof -
  have h: "\<not> re_contains pattern ''Messages and calls are end-to-end encrypted.''"
    by code_simp
  from preprocess_no_delimiter [of "''Messages and calls are end-to-end encrypted.''"] h
  have "preprocess ''Messages and calls are end-to-end encrypted.'' = Inl AttributeError"
    by blast
  with h show ?thesis by (rule conjI)
qed

text \<open>
  An export whose timestamps stand in brackets has no match of the pattern: the claim
  expects the table without rows, the code raises.
\<close>

theorem preprocess_no_delimiter_counterexample:
  "re_findall ''[01.01.24, 10:00:00] Alice: hi'' = []
   \<and> preprocess ''[01.01.24, 10:00:00] Alice: hi'' = Inl AttributeError
   \<and> preprocess ''[01.01.24, 10:00:00] Alice: hi'' \<noteq> Inr []"
  by code_simp

text \<open>
  C7: the tokenizer yields one raw message and one date for every match that
  \<open>re.findall\<close> reports, in that order.  The input is the first piece followed by each
  match and the piece after it, so that each raw message comes from the text between its
  match and the next one (or the end of the input) and the text before the first match
  yields nothing.  No piece contains a match of the pattern.  A raw message is its piece
  without the white space at its two ends: it neither starts nor ends with white space,
  and a line break inside it stays.  Without any match there is nothing to yield, and line
  23 raises.  When \<open>preprocess\<close> returns a table, the table has one row for every match.
\<close>

theorem tokenizer_partition:
  "(re_findall data = [] \<longrightarrow> raw_message_column data = Inl AttributeError)
   \<and> (re_findall data \<noteq> [] \<longrightarrow>
        (\<exists>raws. raw_message_column data = Inr raws
           \<and> length raws = length (re_findall data)
           \<and> (\<forall>i < length raws. trimmed (raws ! i) \<and> (\<exists>l t.
                 tl (re_split data) ! i = l @ raws ! i @ t
                 \<and> (\<forall>c \<in> set l. is_space c) \<and> (\<forall>c \<in> set t. is_space c)))))
   \<and> length (date_column data) = length (re_findall data)
   \<and> data = hd (re_split data) @ concat (map2 (@) (re_findall data) (tl (re_split data)))
   \<and> (\<forall>piece \<in> set (re_split data). \<not> re_contains pattern piece)
   \<and> (\<forall>df. preprocess data = Inr df \<longrightarrow> length df = length (re_findall data))"
proof (intro conjI)
  show "re_findall data = [] \<longrightarrow> raw_message_column data = Inl AttributeError"
    by (simp add: raw_message_column_eq)
  show "re_findall data \<noteq> [] \<longrightarrow>
        (\<exists>raws. raw_message_column data = Inr raws
           \<and> length raws = length (re_findall data)
           \<and> (\<forall>i < length raws. trimmed (raws ! i) \<and> (\<exists>l t.
                 tl (re_split data) ! i = l @ raws ! i @ t
                 \<and> (\<forall>c \<in> set l. is_space c) \<and> (\<forall>c \<in> set t. is_space c))))"
  proof
    assume n: "re_findall data \<noteq> []"
    let ?raws = "map py_strip (tl (re_split data))"
    from n have "raw_message_column data = Inr ?raws"
      by (simp add: raw_message_column_eq)
    moreover have "length ?raws = length (re_findall data)"
      by (simp add: re_split_def length_re_split_from)
    moreover have "\<forall>i < length ?raws. trimmed (?raws ! i) \<and> (\<exists>l t.
                 tl (re_split data) ! i = l @ ?raws ! i @ t
                 \<and> (\<forall>c \<in> set l. is_space c) \<and> (\<forall>c \<in> set t. is_space c))"
      using py_strip_decomp py_strip_trimmed by simp
    ultimately show "\<exists>raws. raw_message_column data = Inr raws
           \<and> length raws = length (re_findall data)
           \<and> (\<forall>i < length raws. trimmed (raws ! i) \<and> (\<exists>l t.
                 tl (re_split data) ! i = l @ raws ! i @ t
                 \<and> (\<forall>c \<in> set l. is_space c) \<and> (\<forall>c \<in> set t. is_space c)))"
      by blast
  qed
  show "length (date_column data) = length (re_findall data)"
    by (simp add: date_column_def)
  show "data = hd (re_split data) @ concat (map2 (@) (re_findall data) (tl (re_split data)))"
    using re_split_from_concat [of "[]" data] by (simp add: re_split_def)
  show "\<forall>piece \<in> set (re_split data). \<not> re_contains pattern piece"
    using pieces_without_match [of "[]" data] by (simp add: re_split_def)
  show "\<forall>df. preprocess data = Inr df \<longrightarrow> length df = length (re_findall data)"
    using preprocess_length by blast
qed

theorem tokenizer_partition_witness:
  "re_findall ''hi\<newline>1/1/24, 10:00 - A: x\<newline>y\<newline>1/2/24, 10:05 - B: ok''
     = [''1/1/24, 10:00 - '', ''1/2/24, 10:05 - '']
   \<and> re_split ''hi\<newline>1/1/24, 10:00 - A: x\<newline>y\<newline>1/2/24, 10:05 - B: ok''
     = [''hi\<newline>'', ''A: x\<newline>y\<newline>'', ''B: ok'']
   \<and> raw_message_column ''hi\<newline>1/1/24, 10:00 - A: x\<newline>y\<newline>1/2/24, 10:05 - B: ok''
     = Inr [''A: x\<newline>y'', ''B: ok'']
   \<and> trimmed ''A: x\<newline>y''
   \<and> \<not> re_contains pattern ''A: x\<newline>y\<newline>''
   \<and> (\<exists>df. preprocess ''hi\<newline>1/1/24, 10:00 - A: x\<newline>y\<newline>1/2/24, 10:05 - B: ok'' = Inr df
        \<and> length df = 2)
   \<and> re_findall ''no timestamp here'' = []
   \<and> raw_message_column ''no timestamp here'' = Inl AttributeError"
proof -
  let ?D = "''hi\<newline>1/1/24, 10:00 - A: x\<newline>y\<newline>1/2/24, 10:05 - B: ok''"
  note t = tokenizer_partition [of ?D]
  have f: "re_findall ?D = [''1/1/24, 10:00 - '', ''1/2/24, 10:05 - '']"
    by code_simp
  have s: "re_split ?D = [''hi\<newline>'', ''A: x\<newline>y\<newline>'', ''B: ok'']"
    by code_simp
  have r: "raw_message_column ?D = Inr [''A: x\<newline>y'', ''B: ok'']"
    by code_simp
  from f have n: "re_findall ?D \<noteq> []" by (simp only:) simp
  from t n obtain raws where raws: "raw_message_column ?D = Inr raws"
    and tr: "\<forall>i < length raws. trimmed (raws ! i)"
    by blast
  from raws r have "raws = [''A: x\<newline>y'', ''B: ok'']" by (simp only: sum.inject)
  with tr have t0: "trimmed ''A: x\<newline>y''" by force
  have "\<not> isl (preprocess ?D)"
    by code_simp
  then obtain df where df: "preprocess ?D = Inr df"
    by (cases "preprocess ?D") auto
  with t f have len: "length df = 2" by simp
  from t s have p: "\<not> re_contains pattern ''A: x\<newline>y\<newline>''"
    by simp
  have e: "re_findall ''no timestamp here'' = []"
    by code_simp
  with tokenizer_partition [of "''no timestamp here''"]
  have a: "raw_message_column ''no timestamp here'' = Inl AttributeError"
    by blast
  from f s r t0 p df len e a show ?thesis by blast
qed

section \<open>Properties of the timestamp parsing\<close>

lemma make_row_fields:
  "date (make_row raw d) = d"
  "user (make_row raw d) = fst (classify raw)"
  "message_content (make_row raw d) = snd (classify raw)"
  "is_media (make_row raw d) = re_contains (m_str ''<Media omitted>'') (snd (classify raw))"
  "hour (make_row raw d) = dt_hour d"
  "day_of_week (make_row raw d) = day_name d"
  by (simp_all add: make_row_def split_def Let_def)

text \<open>
  C5: the whole date column is parsed month first; when a value fails, the whole column is
  parsed day first; when a value fails again, \<open>preprocess\<close> raises and returns no table.
  The date column has a value for every match of the delimiter pattern; without a match
  line 23 raises and no date is parsed.
\<close>

theorem preprocess_date_convention:
  "(date_column data \<noteq> [] \<and>
      (\<forall>v \<in> set (date_column data). strptime CHR ''m'' CHR ''d'' v \<noteq> None) \<longrightarrow>
      preprocess data = Inr (map2 make_row (map py_strip (tl (re_split data)))
        (map (\<lambda>v. the (strptime CHR ''m'' CHR ''d'' v)) (date_column data))))
   \<and> ((\<exists>v \<in> set (date_column data). strptime CHR ''m'' CHR ''d'' v = None) \<and>
      (\<forall>v \<in> set (date_column data). strptime CHR ''d'' CHR ''m'' v \<noteq> None) \<longrightarrow>
      preprocess data = Inr (map2 make_row (map py_strip (tl (re_split data)))
        (map (\<lambda>v. the (strptime CHR ''d'' CHR ''m'' v)) (date_column data))))
   \<and> ((\<exists>v \<in> set (date_column data). strptime CHR ''m'' CHR ''d'' v = None) \<and>
      (\<exists>v \<in> set (date_column data). strptime CHR ''d'' CHR ''m'' v = None) \<longrightarrow>
      preprocess data = Inl DateFormatNotRecognized)"
proof -
  have r: "raw_message_column data = Inr (map py_strip (tl (re_split data)))"
    if "date_column data \<noteq> []"
    using that by (simp add: raw_message_column_eq date_column_def)
  have n: "date_column data \<noteq> []" if "\<exists>v \<in> set (date_column data). P v" for P
    using that by auto
  show ?thesis
  proof (intro conjI impI)
    assume "date_column data \<noteq> [] \<and>
      (\<forall>v \<in> set (date_column data). strptime CHR ''m'' CHR ''d'' v \<noteq> None)"
    then show "preprocess data = Inr (map2 make_row (map py_strip (tl (re_split data)))
        (map (\<lambda>v. the (strptime CHR ''m'' CHR ''d'' v)) (date_column data)))"
      unfolding preprocess_def Let_def to_datetime_all by (simp add: r)
  next
    assume a: "(\<exists>v \<in> set (date_column data). strptime CHR ''m'' CHR ''d'' v = None) \<and>
      (\<forall>v \<in> set (date_column data). strptime CHR ''d'' CHR ''m'' v \<noteq> None)"
    then have "date_column data \<noteq> []" using n by blast
    with a show "preprocess data = Inr (map2 make_row (map py_strip (tl (re_split data)))
        (map (\<lambda>v. the (strptime CHR ''d'' CHR ''m'' v)) (date_column data)))"
      unfolding preprocess_def Let_def to_datetime_all by (auto simp: r)
  next
    assume a: "(\<exists>v \<in> set (date_column data). strptime CHR ''m'' CHR ''d'' v = None) \<and>
      (\<exists>v \<in> set (date_column data). strptime CHR ''d'' CHR ''m'' v = None)"
    then have "date_column data \<noteq> []" using n by blast
    with a show "preprocess data = Inl DateFormatNotRecognized"
      unfolding preprocess_def Let_def to_datetime_all by (auto simp: r)
  qed
qed

theorem preprocess_date_convention_witness:
  "map (strptime CHR ''m'' CHR ''d'') (date_column ''12/31/23, 9:15 - A: x'')
     = [Some \<lparr>dt_year = 2023, dt_month = 12, dt_day = 31, dt_hour = 9, dt_minute = 15\<rparr>]
   \<and> map date (projr (preprocess ''12/31/23, 9:15 - A: x''))
     = [\<lparr>dt_year = 2023, dt_month = 12, dt_day = 31, dt_hour = 9, dt_minute = 15\<rparr>]
   \<and> map (strptime CHR ''m'' CHR ''d'') (date_column ''31/01/24, 10:00 - A: x\<newline>01/02/24, 11:30 - B: y'')
     = [None,
        Some \<lparr>dt_year = 2024, dt_month = 1, dt_day = 2, dt_hour = 11, dt_minute = 30\<rparr>]
   \<and> map (strptime CHR ''d'' CHR ''m'') (date_column ''31/01/24, 10:00 - A: x\<newline>01/02/24, 11:30 - B: y'')
     = [Some \<lparr>dt_year = 2024, dt_month = 1, dt_day = 31, dt_hour = 10, dt_minute = 0\<rparr>,
        Some \<lparr>dt_year = 2024, dt_month = 2, dt_day = 1, dt_hour = 11, dt_minute = 30\<rparr>]
   \<and> map date (projr (preprocess ''31/01/24, 10:00 - A: x\<newline>01/02/24, 11:30 - B: y''))
     = [\<lparr>dt_year = 2024, dt_month = 1, dt_day = 31, dt_hour = 10, dt_minute = 0\<rparr>,
        \<lparr>dt_year = 2024, dt_month = 2, dt_day = 1, dt_hour = 11, dt_minute = 30\<rparr>]
   \<and> map (strptime CHR ''m'' CHR ''d'') (date_column ''31/01/24, 10:00 - A: x\<newline>02/13/24, 11:30 - B: y'')
     = [None,
        Some \<lparr>dt_year = 2024, dt_month = 2, dt_day = 13, dt_hour = 11, dt_minute = 30\<rparr>]
   \<and> map (strptime CHR ''d'' CHR ''m'') (date_column ''31/01/24, 10:00 - A: x\<newline>02/13/24, 11:30 - B: y'')
     = [Some \<lparr>dt_year = 2024, dt_month = 1, dt_day = 31, dt_hour = 10, dt_minute = 0\<rparr>,
        None]
   \<and> preprocess ''31/01/24, 10:00 - A: x\<newline>02/13/24, 11:30 - B: y''
     = Inl DateFormatNotRecognized"
proof -
  let ?D1 = "''12/31/23, 9:15 - A: x''"
  let ?D2 = "''31/01/24, 10:00 - A: x\<newline>01/02/24, 11:30 - B: y''"
  let ?D3 = "''31/01/24, 10:00 - A: x\<newline>02/13/24, 11:30 - B: y''"
  have c1: "date_column ?D1 = [''12/31/23, 9:15'']"
    and r1: "map py_strip (tl (re_split ?D1)) = [''A: x'']"
    by code_simp+
  have c2: "date_column ?D2 = [''31/01/24, 10:00'', ''01/02/24, 11:30'']"
    and r2: "map py_strip (tl (re_split ?D2)) = [''A: x'', ''B: y'']"
    by code_simp+
  have c3: "date_column ?D3 = [''31/01/24, 10:00'', ''02/13/24, 11:30'']"
    by code_simp
  have m1: "strptime CHR ''m'' CHR ''d'' ''12/31/23, 9:15''
      = Some \<lparr>dt_year = 2023, dt_month = 12, dt_day = 31, dt_hour = 9, dt_minute = 15\<rparr>"
    by code_simp
  have m2: "strptime CHR ''m'' CHR ''d'' ''31/01/24, 10:00'' = None"
    "strptime CHR ''m'' CHR ''d'' ''01/02/24, 11:30''
      = Some \<lparr>dt_year = 2024, dt_month = 1, dt_day = 2, dt_hour = 11, dt_minute = 30\<rparr>"
    "strptime CHR ''m'' CHR ''d'' ''02/13/24, 11:30''
      = Some \<lparr>dt_year = 2024, dt_month = 2, dt_day = 13, dt_hour = 11, dt_minute = 30\<rparr>"
    by code_simp+
  have d2: "strptime CHR ''d'' CHR ''m'' ''31/01/24, 10:00''
      = Some \<lparr>dt_year = 2024, dt_month = 1, dt_day = 31, dt_hour = 10, dt_minute = 0\<rparr>"
    "strptime CHR ''d'' CHR ''m'' ''01/02/24, 11:30''
      = Some \<lparr>dt_year = 2024, dt_month = 2, dt_day = 1, dt_hour = 11, dt_minute = 30\<rparr>"
    "strptime CHR ''d'' CHR ''m'' ''02/13/24, 11:30'' = None"
    by code_simp+
  have p1: "map date (projr (preprocess ?D1))
     = [\<lparr>dt_year = 2023, dt_month = 12, dt_day = 31, dt_hour = 9, dt_minute = 15\<rparr>]"
    using preprocess_date_convention [of ?D1] by (simp add: c1 r1 m1 make_row_fields)
  have p2: "map date (projr (preprocess ?D2))
     = [\<lparr>dt_year = 2024, dt_month = 1, dt_day = 31, dt_hour = 10, dt_minute = 0\<rparr>,
        \<lparr>dt_year = 2024, dt_month = 2, dt_day = 1, dt_hour = 11, dt_minute = 30\<rparr>]"
    using preprocess_date_convention [of ?D2] by (simp add: c2 r2 m2 d2 make_row_fields)
  have p3: "preprocess ?D3 = Inl DateFormatNotRecognized"
    using preprocess_date_convention [of ?D3] by (simp add: c3 m2 d2)
  show ?thesis
    by (simp add: c1 c2 c3 m1 m2 d2 p1 p2 p3)
qed

section \<open>Properties of the classifier\<close>

lemma lazy_star_boundaries:
  "concat (map (\<lambda>r1. concat (map (\<lambda>r2. map (\<lambda>r3. (matched (p @ t) r1, r3)) (m_cls is_space r2))
       (m_chr CHR '':'' r1))) (m_lazy_star (\<lambda>c. True) t)) = boundaries p t"
proof (induction t arbitrary: p)
  case Nil
  show ?case by (simp add: m_chr_def)
next
  case (Cons c cs)
  have "matched (p @ c # cs) r = matched ((p @ [c]) @ cs) r" for r by simp
  then show ?case using Cons [of "p @ [c]"]
    apply (simp add: m_chr_def matched_def del: append_assoc)
    apply (cases cs; simp)
    done
qed

lemma sender_regex_boundaries: "sender_regex (c # cs) = boundaries [c] cs"
  using lazy_star_boundaries [of "[c]" cs]
  by (simp add: sender_regex_def m_lazy_plus_def m_then_def)

lemma sender_regex_Nil: "sender_regex [] = []"
  by (simp add: sender_regex_def m_lazy_plus_def m_then_def)

lemma colon_space_in_iff:
  "colon_space_in t \<longleftrightarrow> (\<exists>u w m. t = u @ CHR '':'' # w # m \<and> is_space w)"
proof (induction t)
  case Nil
  show ?case by simp
next
  case (Cons c cs)
  show ?case
  proof
    assume "colon_space_in (c # cs)"
    then consider "c = CHR '':''" "cs \<noteq> []" "is_space (hd cs)" | "colon_space_in cs"
      by auto
    then show "\<exists>u w m. c # cs = u @ CHR '':'' # w # m \<and> is_space w"
    proof cases
      case 1
      then have "c # cs = [] @ CHR '':'' # hd cs # tl cs" by simp
      with 1 show ?thesis by blast
    next
      case 2
      with Cons obtain u w m where "cs = u @ CHR '':'' # w # m" "is_space w" by blast
      then have "c # cs = (c # u) @ CHR '':'' # w # m" by simp
      with \<open>is_space w\<close> show ?thesis by blast
    qed
  next
    assume "\<exists>u w m. c # cs = u @ CHR '':'' # w # m \<and> is_space w"
    then obtain u w m where eq: "c # cs = u @ CHR '':'' # w # m" and w: "is_space w" by blast
    show "colon_space_in (c # cs)"
    proof (cases u)
      case Nil
      with eq w show ?thesis by simp
    next
      case (Cons a u')
      with eq have "cs = u' @ CHR '':'' # w # m" by simp
      with w Cons.IH show ?thesis by auto
    qed
  qed
qed

text \<open>What \<open>has_boundary\<close> says, without recursion.\<close>

lemma has_boundary_iff:
  "has_boundary s \<longleftrightarrow> (\<exists>u w m. s = u @ CHR '':'' # w # m \<and> u \<noteq> [] \<and> is_space w)"
proof (cases s)
  case Nil
  then show ?thesis by (simp add: has_boundary_def)
next
  case (Cons c cs)
  have "(\<exists>u w m. c # cs = u @ CHR '':'' # w # m \<and> u \<noteq> [] \<and> is_space w)
        \<longleftrightarrow> (\<exists>u' w m. cs = u' @ CHR '':'' # w # m \<and> is_space w)"
    by (auto simp: Cons_eq_append_conv)
  with Cons show ?thesis by (simp add: has_boundary_def colon_space_in_iff)
qed

lemma not_space_colon: "\<not> is_space CHR '':''"
  by (simp add: is_space_def)

lemma boundaries_none: "\<not> colon_space_in t \<Longrightarrow> boundaries p t = []"
  by (induction t arbitrary: p) auto

lemma boundaries_first:
  "\<not> colon_space_in u \<Longrightarrow> is_space w \<Longrightarrow>
   boundaries p (u @ CHR '':'' # w # m) = (p @ u, m) # boundaries (p @ u @ [CHR '':'']) (w # m)"
proof (induction u arbitrary: p)
  case Nil
  then show ?case by simp
next
  case (Cons a u)
  from Cons.prems have nu: "\<not> colon_space_in u" by simp
  have "\<not> (a = CHR '':'' \<and> is_space (hd (u @ CHR '':'' # w # m)))"
    using Cons.prems(1) not_space_colon by (cases u) auto
  then show ?case using Cons.IH [OF nu Cons.prems(2), of "p @ [a]"] by simp
qed

lemma colon_space_in_tl: "colon_space_in (tl s) \<Longrightarrow> colon_space_in s"
  by (cases s) auto

lemma re_split1_none: "\<not> has_boundary s \<Longrightarrow> re_split1_from piece s = [rev piece @ s]"
proof (induction s arbitrary: piece)
  case Nil
  show ?case by (simp add: sender_regex_Nil)
next
  case (Cons c cs)
  from Cons.prems have n: "\<not> colon_space_in cs" by (simp add: has_boundary_def)
  then have "\<not> has_boundary cs" using colon_space_in_tl by (auto simp: has_boundary_def)
  from Cons.IH [OF this, of "c # piece"] n show ?case
    by (simp add: sender_regex_boundaries boundaries_none)
qed

text \<open>
  C6, as the code has it: the boundary is the leftmost colon that has at least one
  character before it and a white space character (a blank, a tab, a line break) right
  after it.  The user is the text before that colon and the content the text after the
  white space character.  Without such a colon the user is \<open>group_notification\<close> and the
  content is the whole message.
\<close>

theorem classify_leftmost_boundary:
  "(u \<noteq> [] \<and> is_space w \<and> \<not> has_boundary u \<longrightarrow>
      classify (u @ CHR '':'' # w # m) = (u, m))
   \<and> (\<not> has_boundary s \<longrightarrow> classify s = (''group_notification'', s))"
proof (intro conjI impI)
  assume a: "u \<noteq> [] \<and> is_space w \<and> \<not> has_boundary u"
  then obtain c u' where u: "u = c # u'" by (cases u) auto
  with a have "\<not> colon_space_in u'" by (simp add: has_boundary_def)
  from boundaries_first [OF this, of w "[c]" m] a
  have "sender_regex (u @ CHR '':'' # w # m) = (u, m) # boundaries (u @ [CHR '':'']) (w # m)"
    by (simp add: u sender_regex_boundaries)
  then show "classify (u @ CHR '':'' # w # m) = (u, m)"
    by (simp add: classify_def u)
next
  assume "\<not> has_boundary s"
  then show "classify s = (''group_notification'', s)"
    by (simp add: classify_def re_split1_none)
qed

theorem classify_leftmost_boundary_witness:
  "(''Alice'' \<noteq> [] \<and> is_space CHR '' '' \<and> \<not> has_boundary ''Alice'' \<and>
      classify ''Alice: hello: world'' = (''Alice'', ''hello: world''))
   \<and> (\<not> has_boundary ''Messages and calls are end-to-end encrypted.'' \<and>
      classify ''Messages and calls are end-to-end encrypted.'' =
        (''group_notification'', ''Messages and calls are end-to-end encrypted.''))"
proof -
  have h1: "''Alice'' \<noteq> [] \<and> is_space CHR '' '' \<and> \<not> has_boundary ''Alice''"
    by code_simp
  have h2: "\<not> has_boundary ''Messages and calls are end-to-end encrypted.''"
    by code_simp
  from classify_leftmost_boundary [of "''Alice''" "CHR '' ''" "''hello: world''"
      "''Messages and calls are end-to-end encrypted.''"] h1 h2
  show ?thesis by simp
qed

text \<open>
  The claim as stated fails on a message that starts with a colon and a blank, whose first
  colon is not the boundary, and on a message whose colon is followed by a line break,
  which is a boundary though not a colon and a blank.
\<close>

theorem classify_counterexample:
  "classify '': a: b'' = ('': a'', ''b'') \<and> classify ''a:\<newline>b'' = (''a'', ''b'')"
  by code_simp

section \<open>Properties of helper.py\<close>

lemma preprocess_rows:
  assumes "preprocess data = Inr df" "r \<in> set df"
  shows "\<exists>raw d. r = make_row raw d"
proof -
  from preprocess_Inr [OF assms(1)] obtain ds where
    "df = map2 make_row (map py_strip (tl (re_split data))) ds"
    by blast
  with assms(2) show ?thesis by (auto dest!: set_zip_leftD simp: in_set_zip)
qed

lemma preprocess_is_media:
  assumes "preprocess data = Inr df" "r \<in> set df"
  shows "is_media r = re_contains (m_str ''<Media omitted>'') (message_content r)"
  using preprocess_rows [OF assms] by (auto simp: make_row_fields)

lemma placeholder_contains: "re_contains (m_str ''<Media omitted>'') ''<Media omitted>''"
  by code_simp

lemma length_filter_imp:
  "(\<forall>x \<in> set xs. P x \<longrightarrow> Q x) \<Longrightarrow> length (filter P xs) \<le> length (filter Q xs)"
  by (induction xs) auto

lemma set_select_user: "set (select_user u df) \<subseteq> set df"
  by (auto simp: select_user_def)

text \<open>
  C1, as the code has it: \<open>fetch_stats\<close> does not read the column \<open>is_media\<close>.  Its media
  count is the number of selected rows whose content is exactly the placeholder text.
  Every such row has \<open>is_media\<close> true, so the media count is at most the number of
  selected rows with \<open>is_media\<close> true.
\<close>

theorem fetch_stats_media_count:
  assumes "preprocess data = Inr df"
  shows "fst (snd (snd (fetch_stats selected_user df)))
           = length (filter (\<lambda>r. message_content r = ''<Media omitted>'')
               (select_user selected_user df))
         \<and> (\<forall>r \<in> set df. message_content r = ''<Media omitted>'' \<longrightarrow> is_media r)
         \<and> fst (snd (snd (fetch_stats selected_user df)))
           \<le> length (filter is_media (select_user selected_user df))"
proof (intro conjI)
  show c: "fst (snd (snd (fetch_stats selected_user df)))
           = length (filter (\<lambda>r. message_content r = ''<Media omitted>'')
               (select_user selected_user df))"
    by (simp add: fetch_stats_def Let_def)
  show m: "\<forall>r \<in> set df. message_content r = ''<Media omitted>'' \<longrightarrow> is_media r"
  proof (intro ballI impI)
    fix r assume r: "r \<in> set df" and c: "message_content r = ''<Media omitted>''"
    have "is_media r = re_contains (m_str ''<Media omitted>'') ''<Media omitted>''"
      using preprocess_is_media [OF assms r] c by (simp only:)
    then show "is_media r" using placeholder_contains by (simp only:)
  qed
  have "\<forall>r \<in> set (select_user selected_user df).
          message_content r = ''<Media omitted>'' \<longrightarrow> is_media r"
    using m set_select_user by blast
  from length_filter_imp [OF this] c
  show "fst (snd (snd (fetch_stats selected_user df)))
           \<le> length (filter is_media (select_user selected_user df))"
    by simp
qed

theorem fetch_stats_media_count_witness:
  "\<not> isl (preprocess ''1/1/24, 10:00 - A: <Media omitted>\<newline>1/1/24, 10:01 - B: hi'')
   \<and> map message_content
        (projr (preprocess ''1/1/24, 10:00 - A: <Media omitted>\<newline>1/1/24, 10:01 - B: hi''))
      = [''<Media omitted>'', ''hi'']
   \<and> map is_media
        (projr (preprocess ''1/1/24, 10:00 - A: <Media omitted>\<newline>1/1/24, 10:01 - B: hi''))
      = [True, False]
   \<and> fst (snd (snd (fetch_stats ''Overall''
        (projr (preprocess ''1/1/24, 10:00 - A: <Media omitted>\<newline>1/1/24, 10:01 - B: hi'')))))
      = 1
   \<and> length (filter is_media (select_user ''Overall''
        (projr (preprocess ''1/1/24, 10:00 - A: <Media omitted>\<newline>1/1/24, 10:01 - B: hi''))))
      = 1"
proof -
  let ?D = "''1/1/24, 10:00 - A: <Media omitted>\<newline>1/1/24, 10:01 - B: hi''"
  have ok: "\<not> isl (preprocess ?D)"
    by code_simp
  then have p: "preprocess ?D = Inr (projr (preprocess ?D))"
    by (cases "preprocess ?D") auto
  have c: "map message_content (projr (preprocess ?D)) = [''<Media omitted>'', ''hi'']"
    by code_simp
  have m: "map is_media (projr (preprocess ?D)) = [True, False]"
    by code_simp
  have f: "length (filter (\<lambda>r. message_content r = ''<Media omitted>'')
               (select_user ''Overall'' (projr (preprocess ?D)))) = 1"
    by code_simp
  have g: "length (filter is_media (select_user ''Overall'' (projr (preprocess ?D)))) = 1"
    by code_simp
  from fetch_stats_media_count [OF p, of "''Overall''"] f
  have "fst (snd (snd (fetch_stats ''Overall'' (projr (preprocess ?D))))) = 1"
    by simp
  with ok c m g show ?thesis by blast
qed

text \<open>
  A content that contains the placeholder text next to other text has \<open>is_media\<close> true
  and is not counted by \<open>fetch_stats\<close>.
\<close>

theorem media_count_counterexample:
  "\<not> isl (preprocess ''1/1/24, 10:00 - A: see <Media omitted>'')
   \<and> map message_content (projr (preprocess ''1/1/24, 10:00 - A: see <Media omitted>''))
      = [''see <Media omitted>'']
   \<and> map is_media (projr (preprocess ''1/1/24, 10:00 - A: see <Media omitted>'')) = [True]
   \<and> fetch_stats ''Overall'' (projr (preprocess ''1/1/24, 10:00 - A: see <Media omitted>''))
      = (1, 3, 0, 0)"
  by code_simp

lemma weekday_less: "weekday d < 7"
  by (simp add: weekday_def Let_def)

lemma day_name_in_order: "day_name d \<in> set ordered_days"
proof -
  have "weekday d < length ordered_days"
    using weekday_less [of d] by (simp add: ordered_days_def)
  then show ?thesis unfolding day_name_def by (rule nth_mem)
qed

lemma count_list_eq_length_filter: "count_list xs k = length (filter (\<lambda>x. x = k) xs)"
  by (induction xs) auto

lemma groupby_size_keys: "map fst (groupby_size keys) = sort (remdups keys)"
  by (simp add: groupby_size_def o_def)

lemma groupby_size_counts:
  "map snd (groupby_size keys) = map (\<lambda>k. length (filter (\<lambda>x. x = k) keys)) (sort (remdups keys))"
  by (simp add: groupby_size_def o_def count_list_eq_length_filter)

lemma groupby_size_positive: "0 \<notin> set (map snd (groupby_size keys))"
  by (auto simp: groupby_size_def count_list_0_iff)

lemma weekly_activity_unfold:
  "fst (fst (plot_interactive_activity_analysis df selected_user))
     = map (\<lambda>c. (c, length (filter (\<lambda>r. day_name (date r) = c)
         (select_user selected_user df)))) ordered_days"
proof -
  have days: "(if day_name d \<in> set ordered_days then Some (day_name d) else None)
      = Some (day_name d)" for d
    using day_name_in_order by simp
  show ?thesis
    unfolding plot_interactive_activity_analysis_def Let_def ordered_days_def [symmetric]
    by (simp add: days filter_map o_def)
qed

lemma hourly_activity_unfold:
  "snd (fst (plot_interactive_activity_analysis df selected_user))
     = groupby_size (map (\<lambda>r. dt_hour (date r)) (select_user selected_user df))"
  unfolding plot_interactive_activity_analysis_def Let_def
  by (simp add: o_def)

text \<open>
  C2, as the code has it: the weekday table has exactly seven rows, Monday to Sunday in
  that order, each with the number of selected messages of that weekday, zero included.
  The hour table has one row for every hour of the day in which a selected message was
  sent, in ascending order, each with the number of these messages: it has no row with the
  count zero, and fewer than 24 rows when some hour has no message.
\<close>

theorem activity_counts:
  "map fst (fst (fst (plot_interactive_activity_analysis df selected_user))) = ordered_days
   \<and> length (fst (fst (plot_interactive_activity_analysis df selected_user))) = 7
   \<and> map snd (fst (fst (plot_interactive_activity_analysis df selected_user)))
       = map (\<lambda>c. length (filter (\<lambda>r. day_name (date r) = c) (select_user selected_user df)))
           ordered_days
   \<and> map fst (snd (fst (plot_interactive_activity_analysis df selected_user)))
       = sort (remdups (map (\<lambda>r. dt_hour (date r)) (select_user selected_user df)))
   \<and> map snd (snd (fst (plot_interactive_activity_analysis df selected_user)))
       = map (\<lambda>h. length (filter (\<lambda>r. dt_hour (date r) = h) (select_user selected_user df)))
           (sort (remdups (map (\<lambda>r. dt_hour (date r)) (select_user selected_user df))))
   \<and> 0 \<notin> set (map snd (snd (fst (plot_interactive_activity_analysis df selected_user))))"
proof -
  let ?sel = "select_user selected_user df"
  note w = weekly_activity_unfold [of df selected_user]
  note h = hourly_activity_unfold [of df selected_user]
  have f: "length (filter (\<lambda>x. x = k) (map (\<lambda>r. dt_hour (date r)) ?sel))
      = length (filter (\<lambda>r. dt_hour (date r) = k) ?sel)" for k
    by (simp add: filter_map o_def)
  show ?thesis
    unfolding w h groupby_size_keys groupby_size_counts f
    using groupby_size_positive [of "map (\<lambda>r. dt_hour (date r)) ?sel"]
    by (simp add: o_def groupby_size_counts f) (simp add: ordered_days_def)
qed

theorem activity_counts_witness:
  "\<not> isl (preprocess ''1/1/24, 10:00 - A: x\<newline>1/8/24, 10:30 - B: y'')
   \<and> fst (fst (plot_interactive_activity_analysis
        (projr (preprocess ''1/1/24, 10:00 - A: x\<newline>1/8/24, 10:30 - B: y'')) ''Overall''))
      = [(''Monday'', 2), (''Tuesday'', 0), (''Wednesday'', 0), (''Thursday'', 0),
         (''Friday'', 0), (''Saturday'', 0), (''Sunday'', 0)]
   \<and> map fst (fst (fst (plot_interactive_activity_analysis
        (projr (preprocess ''1/1/24, 10:00 - A: x\<newline>1/8/24, 10:30 - B: y'')) ''Overall'')))
      = ordered_days
   \<and> snd (fst (plot_interactive_activity_analysis
        (projr (preprocess ''1/1/24, 10:00 - A: x\<newline>1/8/24, 10:30 - B: y'')) ''Overall''))
      = [(10, 2)]"
proof -
  let ?df = "projr (preprocess ''1/1/24, 10:00 - A: x\<newline>1/8/24, 10:30 - B: y'')"
  have ok: "\<not> isl (preprocess ''1/1/24, 10:00 - A: x\<newline>1/8/24, 10:30 - B: y'')"
    by code_simp
  have w: "fst (fst (plot_interactive_activity_analysis ?df ''Overall''))
      = [(''Monday'', 2), (''Tuesday'', 0), (''Wednesday'', 0), (''Thursday'', 0),
         (''Friday'', 0), (''Saturday'', 0), (''Sunday'', 0)]"
    by code_simp
  have h: "snd (fst (plot_interactive_activity_analysis ?df ''Overall'')) = [(10, 2)]"
    by code_simp
  from activity_counts [of ?df "''Overall''"]
  have "map fst (fst (fst (plot_interactive_activity_analysis ?df ''Overall''))) = ordered_days"
    by blast
  with ok w h show ?thesis by blast
qed

text \<open>Two messages sent in the same hour give an hour table of one row.\<close>

theorem hourly_counts_counterexample:
  "\<not> isl (preprocess ''1/1/24, 10:00 - A: x\<newline>1/8/24, 10:30 - B: y'')
   \<and> snd (fst (plot_interactive_activity_analysis
        (projr (preprocess ''1/1/24, 10:00 - A: x\<newline>1/8/24, 10:30 - B: y'')) ''Overall''))
      = [(10, 2)]
   \<and> length (snd (fst (plot_interactive_activity_analysis
        (projr (preprocess ''1/1/24, 10:00 - A: x\<newline>1/8/24, 10:30 - B: y'')) ''Overall'')))
      \<noteq> 24"
  by code_simp

lemma map_of_map_key:
  "map_of (map (\<lambda>k. (k, f k)) ks) k = (if k \<in> set ks then Some (f k) else None)"
  by (induction ks) auto

lemma heatmap_unfold:
  "fst (plot_activity_heatmap_matplotlib df) =
     (sort (remdups (map (\<lambda>r. dt_hour (date r)) df)),
      map (\<lambda>l. if l \<in> day_name ` date ` set df
               then (l, map (\<lambda>h. Some (length (filter
                      (\<lambda>r. day_name (date r) = l \<and> dt_hour (date r) = h) df)))
                    (sort (remdups (map (\<lambda>r. dt_hour (date r)) df))))
               else (l, map (\<lambda>_. None) (sort (remdups (map (\<lambda>r. dt_hour (date r)) df)))))
          ordered_days)"
proof -
  let ?cols = "sort (remdups (map (\<lambda>r. dt_hour (date r)) df))"
  let ?df = "map (\<lambda>r. r\<lparr>hour := dt_hour (date r)\<rparr>)
               (map (\<lambda>r. r\<lparr>day_of_week := day_name (date r)\<rparr>) df)"
  let ?cnt = "\<lambda>l h. length (filter (\<lambda>r. day_name (date r) = l \<and> dt_hour (date r) = h) df)"
  have hours: "map hour ?df = map (\<lambda>r. dt_hour (date r)) df"
    and days: "map day_of_week ?df = map (\<lambda>r. day_name (date r)) df"
    by (simp_all add: o_def)
  have cnt: "length (filter (\<lambda>r. day_of_week r = l \<and> hour r = h) ?df) = ?cnt l h" for l h
    by (simp add: filter_map o_def)
  have piv: "fillna 0 (pivot_count ?df) =
      (?cols, map (\<lambda>i. (i, map (\<lambda>h. Some (?cnt i h)) ?cols))
                (sort (remdups (map (\<lambda>r. day_name (date r)) df))))"
    unfolding pivot_count_def fillna_def Let_def hours days cnt
    by (simp add: o_def)
  show ?thesis
    unfolding plot_activity_heatmap_matplotlib_def Let_def piv reindex_def
      ordered_days_def [symmetric]
    by (simp add: map_of_map_key image_image)
qed

text \<open>
  C3, as the code has it: the grid has exactly seven rows, Monday to Sunday in that order.
  Its columns are the hours of the day in which the table has a message, in ascending
  order, and every row has one cell for each of them.  In the row of a weekday on which the
  table has a message, every cell holds the number of messages of that weekday and hour,
  zero where there is none.
\<close>

theorem heatmap_grid:
  "fst (fst (plot_activity_heatmap_matplotlib df))
      = sort (remdups (map (\<lambda>r. dt_hour (date r)) df))
   \<and> map fst (snd (fst (plot_activity_heatmap_matplotlib df))) = ordered_days
   \<and> length (snd (fst (plot_activity_heatmap_matplotlib df))) = 7
   \<and> (\<forall>row \<in> set (snd (fst (plot_activity_heatmap_matplotlib df))).
        length (snd row) = length (fst (fst (plot_activity_heatmap_matplotlib df))))
   \<and> (\<forall>r \<in> set df.
        (day_name (date r),
         map (\<lambda>h. Some (length (filter
                (\<lambda>r'. day_name (date r') = day_name (date r) \<and> dt_hour (date r') = h) df)))
             (fst (fst (plot_activity_heatmap_matplotlib df))))
        \<in> set (snd (fst (plot_activity_heatmap_matplotlib df))))"
proof (intro conjI)
  let ?h = "fst (plot_activity_heatmap_matplotlib df)"
  show cols: "fst ?h = sort (remdups (map (\<lambda>r. dt_hour (date r)) df))"
    by (simp add: heatmap_unfold)
  show "map fst (snd ?h) = ordered_days"
    by (simp add: heatmap_unfold o_def if_distrib [of fst] cong: if_cong)
  show "length (snd ?h) = 7"
    by (simp add: heatmap_unfold) (simp add: ordered_days_def)
  show "\<forall>row \<in> set (snd ?h). length (snd row) = length (fst ?h)"
    by (auto simp: heatmap_unfold)
  show "\<forall>r \<in> set df.
        (day_name (date r),
         map (\<lambda>h. Some (length (filter
                (\<lambda>r'. day_name (date r') = day_name (date r) \<and> dt_hour (date r') = h) df)))
             (fst ?h))
        \<in> set (snd ?h)"
  proof
    fix r assume r: "r \<in> set df"
    then have "day_name (date r) \<in> day_name ` date ` set df" by blast
    moreover have "day_name (date r) \<in> set ordered_days" by (rule day_name_in_order)
    ultimately show "(day_name (date r),
         map (\<lambda>h. Some (length (filter
                (\<lambda>r'. day_name (date r') = day_name (date r) \<and> dt_hour (date r') = h) df)))
             (fst ?h))
        \<in> set (snd ?h)"
      unfolding heatmap_unfold by (simp add: image_iff)
  qed
qed

theorem heatmap_grid_witness:
  "\<not> isl (preprocess ''1/1/24, 10:00 - A: x\<newline>1/2/24, 11:30 - B: y'')
   \<and> map (\<lambda>r. (day_name (date r), dt_hour (date r)))
        (projr (preprocess ''1/1/24, 10:00 - A: x\<newline>1/2/24, 11:30 - B: y''))
      = [(''Monday'', 10), (''Tuesday'', 11)]
   \<and> fst (fst (plot_activity_heatmap_matplotlib
        (projr (preprocess ''1/1/24, 10:00 - A: x\<newline>1/2/24, 11:30 - B: y'')))) = [10, 11]
   \<and> map fst (snd (fst (plot_activity_heatmap_matplotlib
        (projr (preprocess ''1/1/24, 10:00 - A: x\<newline>1/2/24, 11:30 - B: y'')))))
      = ordered_days
   \<and> take 2 (snd (fst (plot_activity_heatmap_matplotlib
        (projr (preprocess ''1/1/24, 10:00 - A: x\<newline>1/2/24, 11:30 - B: y'')))))
      = [(''Monday'', [Some 1, Some 0]), (''Tuesday'', [Some 0, Some 1])]"
proof -
  let ?df = "projr (preprocess ''1/1/24, 10:00 - A: x\<newline>1/2/24, 11:30 - B: y'')"
  have ok: "\<not> isl (preprocess ''1/1/24, 10:00 - A: x\<newline>1/2/24, 11:30 - B: y'')"
    by code_simp
  have rows: "map (\<lambda>r. (day_name (date r), dt_hour (date r))) ?df
      = [(''Monday'', 10), (''Tuesday'', 11)]"
    by code_simp
  have cols: "sort (remdups (map (\<lambda>r. dt_hour (date r)) ?df)) = [10, 11]"
    by code_simp
  have cells: "take 2 (snd (fst (plot_activity_heatmap_matplotlib ?df)))
      = [(''Monday'', [Some 1, Some 0]), (''Tuesday'', [Some 0, Some 1])]"
    by code_simp
  note g = heatmap_grid [of ?df]
  from g cols have "fst (fst (plot_activity_heatmap_matplotlib ?df)) = [10, 11]"
    by simp
  moreover from g
  have "map fst (snd (fst (plot_activity_heatmap_matplotlib ?df))) = ordered_days"
    by blast
  ultimately show ?thesis using ok rows cells by blast
qed

text \<open>
  A table with messages in two hours of the day gives a grid of two columns, not 24; the
  cells of the weekdays without a message are \<open>NaN\<close>, since \<open>fillna(0)\<close> runs before
  \<open>reindex\<close> adds their rows.
\<close>

theorem heatmap_grid_counterexample:
  "\<not> isl (preprocess ''1/1/24, 10:00 - A: x\<newline>1/2/24, 11:30 - B: y'')
   \<and> fst (plot_activity_heatmap_matplotlib
        (projr (preprocess ''1/1/24, 10:00 - A: x\<newline>1/2/24, 11:30 - B: y'')))
      = ([10, 11],
         [(''Monday'', [Some 1, Some 0]), (''Tuesday'', [Some 0, Some 1]),
          (''Wednesday'', [None, None]), (''Thursday'', [None, None]),
          (''Friday'', [None, None]), (''Saturday'', [None, None]),
          (''Sunday'', [None, None])])
   \<and> length (fst (fst (plot_activity_heatmap_matplotlib
        (projr (preprocess ''1/1/24, 10:00 - A: x\<newline>1/2/24, 11:30 - B: y''))))) \<noteq> 24"
  by code_simp

section \<open>Properties of the timelines\<close>

text \<open>The text of \<open>strftime('%Y-%m')\<close> grows with the month, for years of four digits.\<close>

lemma of_char_digit: "0 \<le> a \<Longrightarrow> a \<le> 9 \<Longrightarrow> (of_char (digit a) :: nat) = nat (48 + a)"
proof -
  assume a: "0 \<le> a" "a \<le> 9"
  have "48 + a = int (48 + nat a)" using a by simp
  then have "char_of (48 + a) = char_of (int (48 + nat a))" by (simp only:)
  also have "\<dots> = char_of (48 + nat a)" by (rule char_of_nat)
  finally have "digit a = char_of (48 + nat a)" by (simp only: digit_def)
  then show ?thesis using a by simp
qed

lemma lex_base:
  fixes q1 q2 r1 r2 :: int
  assumes "0 \<le> r1" "r1 < 10" "0 \<le> r2" "r2 < 10"
  shows "10 * q1 + r1 < 10 * q2 + r2 \<longleftrightarrow> q1 < q2 \<or> (q1 = q2 \<and> r1 < r2)"
  using assms by linarith

lemma lex10:
  fixes x y :: int
  shows "x < y \<longleftrightarrow> x div 10 < y div 10 \<or> (x div 10 = y div 10 \<and> x mod 10 < y mod 10)"
proof -
  define q1 r1 q2 r2 where "q1 = x div 10" and "r1 = x mod 10" and "q2 = y div 10"
    and "r2 = y mod 10"
  have x: "x = 10 * q1 + r1" and y: "y = 10 * q2 + r2"
    unfolding q1_def r1_def q2_def r2_def by simp_all
  have b: "0 \<le> r1" "r1 < 10" "0 \<le> r2" "r2 < 10"
    unfolding r1_def r2_def by simp_all
  show ?thesis
    unfolding q1_def [symmetric] r1_def [symmetric] q2_def [symmetric] r2_def [symmetric]
    unfolding x y by (rule lex_base [OF b])
qed

lemma div_100: "x div 100 = x div 10 div 10" and div_1000: "x div 1000 = x div 10 div 10 div 10"
  for x :: int
  by simp_all

lemma top_digit:
  "0 \<le> y \<Longrightarrow> y \<le> 9999 \<Longrightarrow> y div 10 div 10 div 10 mod 10 = y div 10 div 10 div 10"
  for y :: int
  by simp

lemma digits4_less:
  fixes y1 y2 :: int
  assumes "0 \<le> y1" "y1 < y2" "y2 \<le> 9999"
  shows "y1 div 1000 mod 10 < y2 div 1000 mod 10
     \<or> (y1 div 1000 mod 10 = y2 div 1000 mod 10 \<and> (y1 div 100 mod 10 < y2 div 100 mod 10
     \<or> (y1 div 100 mod 10 = y2 div 100 mod 10 \<and> (y1 div 10 mod 10 < y2 div 10 mod 10
     \<or> (y1 div 10 mod 10 = y2 div 10 mod 10 \<and> y1 mod 10 < y2 mod 10)))))"
proof -
  have t1: "y1 div 10 div 10 div 10 mod 10 = y1 div 10 div 10 div 10"
    and t2: "y2 div 10 div 10 div 10 mod 10 = y2 div 10 div 10 div 10"
    using assms by (simp_all add: top_digit)
  have "y1 div 10 < y2 div 10 \<or> (y1 div 10 = y2 div 10 \<and> y1 mod 10 < y2 mod 10)"
    using assms(2) lex10 [of y1 y2] by (simp only:)
  moreover have "y1 div 10 < y2 div 10 \<Longrightarrow>
      y1 div 10 div 10 < y2 div 10 div 10 \<or>
      (y1 div 10 div 10 = y2 div 10 div 10 \<and> y1 div 10 mod 10 < y2 div 10 mod 10)"
    using lex10 [of "y1 div 10" "y2 div 10"] by (simp only:)
  moreover have "y1 div 10 div 10 < y2 div 10 div 10 \<Longrightarrow>
      y1 div 10 div 10 div 10 < y2 div 10 div 10 div 10 \<or>
      (y1 div 10 div 10 div 10 = y2 div 10 div 10 div 10 \<and>
       y1 div 10 div 10 mod 10 < y2 div 10 div 10 mod 10)"
    using lex10 [of "y1 div 10 div 10" "y2 div 10 div 10"] by (simp only:)
  ultimately show ?thesis
    unfolding div_100 div_1000 t1 t2 by metis
qed

lemma digits2_less:
  fixes m1 m2 :: int
  assumes "0 \<le> m1" "m1 < m2" "m2 \<le> 99"
  shows "m1 div 10 mod 10 < m2 div 10 mod 10
     \<or> (m1 div 10 mod 10 = m2 div 10 mod 10 \<and> m1 mod 10 < m2 mod 10)"
proof -
  have "m1 div 10 mod 10 = m1 div 10" "m2 div 10 mod 10 = m2 div 10"
    using assms by simp_all
  moreover have "m1 div 10 < m2 div 10 \<or> (m1 div 10 = m2 div 10 \<and> m1 mod 10 < m2 mod 10)"
    using assms(2) lex10 [of m1 m2] by (simp only:)
  ultimately show ?thesis by (simp only:)
qed

lemma digit_less_iff:
  "0 \<le> a \<Longrightarrow> a \<le> 9 \<Longrightarrow> 0 \<le> b \<Longrightarrow> b \<le> 9 \<Longrightarrow> digit a < digit b \<longleftrightarrow> a < b"
  by (simp add: less_char_def of_char_digit)

lemma digit_eq_iff:
  assumes "0 \<le> a" "a \<le> 9" "0 \<le> b" "b \<le> 9"
  shows "digit a = digit b \<longleftrightarrow> a = b"
proof
  assume "digit a = digit b"
  then have "(of_char (digit a) :: nat) = of_char (digit b)" by (simp only:)
  with assms show "a = b" by (simp add: of_char_digit)
qed simp

lemma mod10_bounds: "0 \<le> a mod 10" "a mod 10 \<le> 9" for a :: int
proof -
  show "0 \<le> a mod 10" by simp
  have "a mod 10 < 10" by simp
  then show "a mod 10 \<le> 9" by (simp only: zle_add1_eq_le [symmetric, of _ 9])
qed

lemma digit_mod_less:
  "digit (a mod 10) < digit (b mod 10) \<longleftrightarrow> a mod 10 < b mod 10" for a b :: int
  by (rule digit_less_iff) (rule mod10_bounds)+

lemma digit_mod_eq:
  "digit (a mod 10) = digit (b mod 10) \<longleftrightarrow> a mod 10 = b mod 10" for a b :: int
  by (rule digit_eq_iff) (rule mod10_bounds)+

lemma strftime_Ym_less:
  assumes "0 \<le> fst k" "fst k' \<le> 9999" "0 \<le> snd k" "snd k' \<le> 99" "earlier_month k k'"
  shows "strftime_Ym k < strftime_Ym k'"
proof -
  from assms(5) consider "fst k < fst k'" | "fst k = fst k'" "snd k < snd k'"
    by (auto simp: earlier_month_def)
  then show ?thesis
  proof cases
    case 1
    from digits4_less [OF assms(1) 1 assms(2)] show ?thesis
      unfolding strftime_Ym_def by (auto simp: digit_mod_less digit_mod_eq)
  next
    case 2
    from digits2_less [OF assms(3) 2(2) assms(4)] 2(1) show ?thesis
      unfolding strftime_Ym_def by (auto simp: digit_mod_less digit_mod_eq)
  qed
qed


lemma strict_mono_inj_on:
  fixes f :: "'a::linorder \<Rightarrow> 'b::linorder"
  assumes "\<forall>x \<in> A. \<forall>y \<in> A. x < y \<longrightarrow> f x < f y"
  shows "inj_on f A"
proof (rule inj_onI)
  fix x y assume xy: "x \<in> A" "y \<in> A" "f x = f y"
  show "x = y"
  proof (rule ccontr)
    assume "x \<noteq> y"
    then consider "x < y" | "y < x" by fastforce
    then show False using assms xy by cases force+
  qed
qed

lemma sort_remdups_map:
  fixes f :: "'a::linorder \<Rightarrow> 'b::linorder"
  assumes "\<forall>x \<in> set xs. \<forall>y \<in> set xs. x < y \<longrightarrow> f x < f y"
  shows "sort (remdups (map f xs)) = map f (sort (remdups xs))"
proof (rule sorted_distinct_set_unique)
  have i: "inj_on f (set xs)" using assms by (rule strict_mono_inj_on)
  show "sorted (sort (remdups (map f xs)))" by simp
  show "distinct (sort (remdups (map f xs)))" by simp
  have "sorted_wrt (\<le>) (sort (remdups xs))" by simp
  then have "sorted_wrt (\<lambda>x y. f x \<le> f y) (sort (remdups xs))"
  proof (rule sorted_wrt_mono_rel [rotated])
    fix x y assume "x \<in> set (sort (remdups xs))" "y \<in> set (sort (remdups xs))" "x \<le> y"
    then show "f x \<le> f y" using assms by (cases "x = y") force+
  qed
  then show "sorted (map f (sort (remdups xs)))" by (simp add: sorted_map)
  show "distinct (map f (sort (remdups xs)))"
    using i by (simp add: distinct_map)
  show "set (sort (remdups (map f xs))) = set (map f (sort (remdups xs)))" by simp
qed

lemma length_filter_inj_on:
  assumes "inj_on f (set xs)" "k \<in> set xs"
  shows "length (filter (\<lambda>x. f x = f k) xs) = length (filter (\<lambda>x. x = k) xs)"
proof -
  have "filter (\<lambda>x. f x = f k) xs = filter (\<lambda>x. x = k) xs"
    using assms by (intro filter_cong) (auto simp: inj_on_def)
  then show ?thesis by simp
qed

lemma groupby_size_map:
  fixes f :: "'a::linorder \<Rightarrow> 'b::linorder"
  assumes "\<forall>x \<in> set ks. \<forall>y \<in> set ks. x < y \<longrightarrow> f x < f y"
  shows "groupby_size (map f ks)
    = map (\<lambda>k. (f k, length (filter (\<lambda>x. x = k) ks))) (sort (remdups ks))"
proof -
  have i: "inj_on f (set ks)" using assms by (rule strict_mono_inj_on)
  have "groupby_size (map f ks)
      = map (\<lambda>k. (f k, length (filter (\<lambda>x. f x = f k) ks))) (sort (remdups ks))"
    unfolding groupby_size_def sort_remdups_map [OF assms]
    by (simp add: o_def count_list_eq_length_filter filter_map)
  also have "\<dots> = map (\<lambda>k. (f k, length (filter (\<lambda>x. x = k) ks))) (sort (remdups ks))"
    by (rule map_cong) (simp_all add: length_filter_inj_on [OF i])
  finally show ?thesis .
qed

lemma groupby_size_id:
  "groupby_size ks = map (\<lambda>k. (k, length (filter (\<lambda>x. x = k) ks))) (sort (remdups ks))"
  by (simp add: groupby_size_def count_list_eq_length_filter)

lemma less_is_earlier_month: "k < k' \<longleftrightarrow> earlier_month k k'"
  by (cases k; cases k') (auto simp: earlier_month_def less_prod_def)

lemma less_is_earlier_day: "k < k' \<longleftrightarrow> earlier_day k k'"
  by (cases k; cases k') (auto simp: earlier_day_def less_prod_def)

lemma strictly_sorted_keys: "sorted_wrt (<) (sort (remdups ks))"
  by (simp add: strict_sorted_iff)

text \<open>The dates of a table that \<open>preprocess\<close> returns are in the years 1969 to 2068.\<close>

lemma in_cls: "r \<in> set (m_cls P s) \<longleftrightarrow> (\<exists>c. s = c # r \<and> P c)"
  by (cases s) auto

lemma in_chr: "r \<in> set (m_chr a s) \<longleftrightarrow> s = a # r"
  by (auto simp: m_chr_def in_cls)

lemma in_then: "r \<in> set (m_then p q s) \<longleftrightarrow> (\<exists>t \<in> set (p s). r \<in> set (q t))"
  by (auto simp: m_then_def)

lemma in_or: "r \<in> set (m_or p q s) \<longleftrightarrow> r \<in> set (p s) \<or> r \<in> set (q s)"
  by (simp add: m_or_def)

lemma not_space_digit: "is_digit c \<Longrightarrow> \<not> is_space c"
  by (auto simp: is_digit_def is_space_def)

lemma py_int_1: "is_digit c \<Longrightarrow> py_int [c] = of_char c - 48"
  by (simp add: py_int_def py_strip_def not_space_digit)

lemma py_int_2: "is_digit c \<Longrightarrow> is_digit c' \<Longrightarrow> py_int [c, c'] = 10 * (of_char c - 48) + (of_char c' - 48)"
  by (simp add: py_int_def py_strip_def not_space_digit)

lemma matched_1: "matched (c # r) r = [c]" and matched_2: "matched (c # c' # r) r = [c, c']"
  by (simp_all add: matched_def)

lemma directive_y:
  assumes "r \<in> set (directive CHR ''y'' s)"
  shows "0 \<le> py_int (matched s r) \<and> py_int (matched s r) \<le> 99"
proof -
  from assms obtain c c' where s: "s = c # c' # r" and d: "is_digit c" "is_digit c'"
    by (auto simp: directive_def in_then in_cls)
  from d show ?thesis unfolding s matched_2 py_int_2 [OF d]
    by (simp add: is_digit_def)
qed

lemma directive_m:
  assumes "r \<in> set (directive CHR ''m'' s)"
  shows "1 \<le> py_int (matched s r) \<and> py_int (matched s r) \<le> 12"
proof -
  from assms consider
      c where "s = CHR ''1'' # c # r" "in_range CHR ''0'' CHR ''2'' c"
    | c where "s = CHR ''0'' # c # r" "in_range CHR ''1'' CHR ''9'' c"
    | c where "s = c # r" "in_range CHR ''1'' CHR ''9'' c"
    by (auto simp: directive_def in_then in_cls in_or in_chr)
  then show ?thesis
  proof cases
    case 1
    then have "is_digit c" "is_digit CHR ''1''" by (simp_all add: in_range_def is_digit_def)
    from py_int_2 [OF this(2) this(1)] 1 show ?thesis
      by (simp add: matched_2 in_range_def)
  next
    case 2
    then have "is_digit c" "is_digit CHR ''0''" by (simp_all add: in_range_def is_digit_def)
    from py_int_2 [OF this(2) this(1)] 2 show ?thesis
      by (simp add: matched_2 in_range_def)
  next
    case 3
    then have "is_digit c" by (simp_all add: in_range_def is_digit_def)
    from py_int_1 [OF this] 3 show ?thesis
      by (simp add: matched_1 in_range_def)
  qed
qed

lemma format_regex_groups:
  assumes "((ga, gb, gy, gH, gM), rest) \<in> set (format_regex a b v)"
  shows "\<exists>s1 r1 s2 r2 s3 r3. r1 \<in> set (directive a s1) \<and> ga = matched s1 r1
        \<and> r2 \<in> set (directive b s2) \<and> gb = matched s2 r2
        \<and> r3 \<in> set (directive CHR ''y'' s3) \<and> gy = matched s3 r3"
  using assms unfolding format_regex_def by auto blast

lemma strptime_range:
  assumes "strptime a b v = Some d" "a = CHR ''m'' \<and> b = CHR ''d'' \<or> a = CHR ''d'' \<and> b = CHR ''m''"
  shows "1969 \<le> dt_year d \<and> dt_year d \<le> 2068 \<and> 1 \<le> dt_month d \<and> dt_month d \<le> 12"
proof -
  from assms(1) obtain ga gb gy gH gM rest tl' where
    f: "format_regex a b v = ((ga, gb, gy, gH, gM), rest) # tl'"
    by (auto simp: strptime_def split: list.splits if_splits)
  then have "((ga, gb, gy, gH, gM), rest) \<in> set (format_regex a b v)" by simp
  from format_regex_groups [OF this] obtain s1 r1 s2 r2 s3 r3 where
    g: "r1 \<in> set (directive a s1)" "ga = matched s1 r1"
       "r2 \<in> set (directive b s2)" "gb = matched s2 r2"
       "r3 \<in> set (directive CHR ''y'' s3)" "gy = matched s3 r3"
    by blast
  have y: "0 \<le> py_int gy \<and> py_int gy \<le> 99"
    using directive_y g by blast
  have m: "1 \<le> py_int (if a = CHR ''m'' then ga else gb)
      \<and> py_int (if a = CHR ''m'' then ga else gb) \<le> 12"
    using assms(2) directive_m g by auto
  from assms(1) f have d: "dt_year d = (if py_int gy \<le> 68 then 2000 + py_int gy else 1900 + py_int gy)"
      "dt_month d = py_int (if a = CHR ''m'' then ga else gb)"
    by (auto simp: strptime_def Let_def split: if_splits)
  from y m show ?thesis unfolding d by auto
qed


lemma to_datetime_range:
  assumes "to_datetime a b vs = Inr ds"
    "a = CHR ''m'' \<and> b = CHR ''d'' \<or> a = CHR ''d'' \<and> b = CHR ''m''"
  shows "\<forall>d \<in> set ds. 1969 \<le> dt_year d \<and> dt_year d \<le> 2068 \<and> 1 \<le> dt_month d \<and> dt_month d \<le> 12"
proof -
  from assms(1) have ds: "ds = map (\<lambda>v. the (strptime a b v)) vs"
    and ok: "\<forall>v \<in> set vs. strptime a b v \<noteq> None"
    unfolding to_datetime_all by (auto split: if_splits)
  show ?thesis
  proof
    fix d assume "d \<in> set ds"
    with ds ok obtain v where "strptime a b v = Some d" by auto
    from strptime_range [OF this assms(2)]
    show "1969 \<le> dt_year d \<and> dt_year d \<le> 2068 \<and> 1 \<le> dt_month d \<and> dt_month d \<le> 12" .
  qed
qed

lemma preprocess_date_range:
  assumes "preprocess data = Inr df"
  shows "\<forall>r \<in> set df. 1969 \<le> dt_year (date r) \<and> dt_year (date r) \<le> 2068
           \<and> 1 \<le> dt_month (date r) \<and> dt_month (date r) \<le> 12"
proof -
  from preprocess_Inr [OF assms] obtain a b ds where
    ab: "a = CHR ''m'' \<and> b = CHR ''d'' \<or> a = CHR ''d'' \<and> b = CHR ''m''"
    and ds: "to_datetime a b (date_column data) = Inr ds"
    and df: "df = map2 make_row (map py_strip (tl (re_split data))) ds"
    by blast
  show ?thesis
  proof
    fix r assume "r \<in> set df"
    with df obtain raw d where "r = make_row raw d" "d \<in> set ds"
      by (auto dest: set_zip_rightD)
    with to_datetime_range [OF ds ab] show "1969 \<le> dt_year (date r) \<and> dt_year (date r) \<le> 2068
           \<and> 1 \<le> dt_month (date r) \<and> dt_month (date r) \<le> 12"
      by (simp add: make_row_fields)
  qed
qed

lemma chronological_in_range:
  assumes "\<forall>r \<in> set df. 1000 \<le> dt_year (date r) \<and> dt_year (date r) \<le> 9999
             \<and> 1 \<le> dt_month (date r) \<and> dt_month (date r) \<le> 12"
  shows "fst (plot_monthly_timeline selected_user df)
           = map (\<lambda>k. (strftime_Ym k,
                  length (filter (\<lambda>r. to_period_M (date r) = k) (select_user selected_user df))))
               (sort (remdups (map (\<lambda>r. to_period_M (date r)) (select_user selected_user df))))
         \<and> sorted_wrt earlier_month
               (sort (remdups (map (\<lambda>r. to_period_M (date r)) (select_user selected_user df))))
         \<and> plot_daily_timeline selected_user df
           = map (\<lambda>k. (k,
                  length (filter (\<lambda>r. dt_date (date r) = k) (select_user selected_user df))))
               (sort (remdups (map (\<lambda>r. dt_date (date r)) (select_user selected_user df))))
         \<and> sorted_wrt earlier_day (map fst (plot_daily_timeline selected_user df))"
proof (intro conjI)
  let ?sel = "select_user selected_user df"
  let ?ks = "map (\<lambda>r. to_period_M (date r)) ?sel"
  have range: "\<forall>k \<in> set ?ks. 0 \<le> fst k \<and> fst k \<le> 9999 \<and> 0 \<le> snd k \<and> snd k \<le> 99"
    using assms set_select_user [of selected_user df] by (fastforce simp: to_period_M_def)
  have mono: "\<forall>x \<in> set ?ks. \<forall>y \<in> set ?ks. x < y \<longrightarrow> strftime_Ym x < strftime_Ym y"
    using range strftime_Ym_less by (simp add: less_is_earlier_month)
  have "fst (plot_monthly_timeline selected_user df)
      = groupby_size (map strftime_Ym ?ks)"
    by (simp add: plot_monthly_timeline_def Let_def o_def)
  also have "\<dots> = map (\<lambda>k. (strftime_Ym k, length (filter (\<lambda>x. x = k) ?ks)))
      (sort (remdups ?ks))"
    by (rule groupby_size_map [OF mono])
  finally show "fst (plot_monthly_timeline selected_user df)
           = map (\<lambda>k. (strftime_Ym k, length (filter (\<lambda>r. to_period_M (date r) = k) ?sel)))
               (sort (remdups ?ks))"
    by (simp add: filter_map o_def)
  show "sorted_wrt earlier_month (sort (remdups ?ks))"
    using strictly_sorted_keys [of ?ks] less_is_earlier_month
    by (simp add: sorted_wrt_iff_nth_less)
  show d: "plot_daily_timeline selected_user df
           = map (\<lambda>k. (k, length (filter (\<lambda>r. dt_date (date r) = k) ?sel)))
               (sort (remdups (map (\<lambda>r. dt_date (date r)) ?sel)))"
    by (simp add: plot_daily_timeline_def Let_def groupby_size_id filter_map o_def)
  show "sorted_wrt earlier_day (map fst (plot_daily_timeline selected_user df))"
    unfolding d using strictly_sorted_keys [of "map (\<lambda>r. dt_date (date r)) ?sel"]
      less_is_earlier_day
    by (simp add: sorted_wrt_iff_nth_less o_def)
qed

text \<open>
  C8: for every table that \<open>preprocess\<close> returns and every sender filter, the monthly
  table has one row for each month of the calendar in which a selected message was sent,
  labelled year-month, and these rows stand in strictly increasing calendar order; the
  daily table has one row for each calendar day with a selected message, in strictly
  increasing calendar order.
\<close>

theorem timelines_chronological:
  assumes "preprocess data = Inr df"
  shows "fst (plot_monthly_timeline selected_user df)
           = map (\<lambda>k. (strftime_Ym k,
                  length (filter (\<lambda>r. to_period_M (date r) = k) (select_user selected_user df))))
               (sort (remdups (map (\<lambda>r. to_period_M (date r)) (select_user selected_user df))))
         \<and> sorted_wrt earlier_month
               (sort (remdups (map (\<lambda>r. to_period_M (date r)) (select_user selected_user df))))
         \<and> plot_daily_timeline selected_user df
           = map (\<lambda>k. (k,
                  length (filter (\<lambda>r. dt_date (date r) = k) (select_user selected_user df))))
               (sort (remdups (map (\<lambda>r. dt_date (date r)) (select_user selected_user df))))
         \<and> sorted_wrt earlier_day (map fst (plot_daily_timeline selected_user df))"
proof (rule chronological_in_range)
  from preprocess_date_range [OF assms]
  show "\<forall>r \<in> set df. 1000 \<le> dt_year (date r) \<and> dt_year (date r) \<le> 9999
             \<and> 1 \<le> dt_month (date r) \<and> dt_month (date r) \<le> 12"
    by fastforce
qed

theorem timelines_chronological_witness:
  "\<not> isl (preprocess ''12/15/23, 9:00 - A: x\<newline>1/10/24, 9:00 - B: y\<newline>2/5/24, 9:00 - A: z'')
   \<and> fst (plot_monthly_timeline ''Overall'' (projr (preprocess
        ''12/15/23, 9:00 - A: x\<newline>1/10/24, 9:00 - B: y\<newline>2/5/24, 9:00 - A: z'')))
      = [(''2023-12'', 1), (''2024-01'', 1), (''2024-02'', 1)]
   \<and> plot_daily_timeline ''Overall'' (projr (preprocess
        ''12/15/23, 9:00 - A: x\<newline>1/10/24, 9:00 - B: y\<newline>2/5/24, 9:00 - A: z''))
      = [((2023, 12, 15), 1), ((2024, 1, 10), 1), ((2024, 2, 5), 1)]
   \<and> sorted_wrt earlier_month [(2023, 12), (2024, 1), (2024, 2)]"
proof -
  let ?D = "''12/15/23, 9:00 - A: x\<newline>1/10/24, 9:00 - B: y\<newline>2/5/24, 9:00 - A: z''"
  let ?df = "projr (preprocess ?D)"
  have ok: "\<not> isl (preprocess ?D)"
    by code_simp
  then have p: "preprocess ?D = Inr ?df"
    by (cases "preprocess ?D") auto
  note t = timelines_chronological [OF p, of "''Overall''"]
  have keys: "sort (remdups (map (\<lambda>r. to_period_M (date r)) (select_user ''Overall'' ?df)))
      = [(2023, 12), (2024, 1), (2024, 2)]"
    by code_simp
  have vals: "map (\<lambda>k. (strftime_Ym k,
        length (filter (\<lambda>r. to_period_M (date r) = k) (select_user ''Overall'' ?df))))
        [(2023, 12), (2024, 1), (2024, 2)]
      = [(''2023-12'', 1), (''2024-01'', 1), (''2024-02'', 1)]"
    by code_simp
  have days: "map (\<lambda>k. (k,
        length (filter (\<lambda>r. dt_date (date r) = k) (select_user ''Overall'' ?df))))
        (sort (remdups (map (\<lambda>r. dt_date (date r)) (select_user ''Overall'' ?df))))
      = [((2023, 12, 15), 1), ((2024, 1, 10), 1), ((2024, 2, 5), 1)]"
    by code_simp
  from t keys vals have m: "fst (plot_monthly_timeline ''Overall'' ?df)
      = [(''2023-12'', 1), (''2024-01'', 1), (''2024-02'', 1)]"
    by (simp only:)
  from t days have d: "plot_daily_timeline ''Overall'' ?df
      = [((2023, 12, 15), 1), ((2024, 1, 10), 1), ((2024, 2, 5), 1)]"
    by (simp only:)
  from t keys have s: "sorted_wrt earlier_month [(2023, 12), (2024, 1), (2024, 2)]"
    by (simp only:)
  from ok m d s show ?thesis by (intro conjI)
qed

section \<open>Properties of the sender filter\<close>

lemma select_user_Overall: "select_user ''Overall'' df = df"
  by (simp add: select_user_def)

lemma select_user_never_the_sender:
  assumes "\<exists>r \<in> set df. user r = ''Overall''" "\<exists>r \<in> set df. user r \<noteq> ''Overall''"
  shows "select_user u df \<noteq> filter (\<lambda>r. user r = ''Overall'') df"
proof (cases "u = ''Overall''")
  case True
  from assms(2) obtain r where r: "r \<in> set df" "user r \<noteq> ''Overall''" by blast
  show ?thesis
  proof
    assume "select_user u df = filter (\<lambda>r. user r = ''Overall'') df"
    with True have "filter (\<lambda>r. user r = ''Overall'') df = df"
      by (simp add: select_user_def)
    then have "\<forall>x \<in> set df. user x = ''Overall''"
      by (simp only: filter_id_conv)
    with r show False by blast
  qed
next
  case False
  from assms(1) obtain r where r: "r \<in> set df" "user r = ''Overall''" by blast
  then have "r \<in> set (filter (\<lambda>r. user r = ''Overall'') df)" by simp
  moreover from r False have "r \<notin> set (select_user u df)" by (auto simp: select_user_def)
  ultimately show ?thesis by metis
qed

lemma sum_counts_unique: "sum_list (map (count_list xs) (unique xs)) = length xs"
proof -
  have "distinct (unique xs)" by (simp add: unique_def)
  then have "sum_list (map (count_list xs) (unique xs)) = sum (count_list xs) (set (unique xs))"
    by (rule sum_list_distinct_conv_sum_set)
  also have "\<dots> = length xs"
    by (simp add: unique_def sum_count_set)
  finally show ?thesis .
qed

lemma set_unique: "set (unique xs) = set xs"
  by (simp add: unique_def)

lemma get_user_list_unfold:
  "get_user_list df = ''Overall'' # sort (remove1 ''group_notification'' (unique (map user df)))"
  by (simp add: get_user_list_def Let_def remove1_idem)

lemma sender_Overall_listed:
  assumes "\<exists>r \<in> set df. user r = ''Overall''"
  shows "''Overall'' \<in> set (tl (get_user_list df))"
proof -
  from assms have "''Overall'' \<in> set (unique (map user df))"
    by (force simp: set_unique)
  then have "''Overall'' \<in> set (remove1 ''group_notification'' (unique (map user df)))"
    by (simp add: in_set_remove1)
  then show ?thesis by (simp add: get_user_list_unfold)
qed

text \<open>
  C10: with the filter \<open>'Overall'\<close> every function computes over all rows of the table,
  whoever sent them.  When the table has a sender named \<open>Overall\<close> next to another
  sender, no value of the filter selects exactly the rows of that sender.  The list of
  \<open>get_user_list\<close> starts with the entry \<open>Overall\<close> and holds the same text
  again for that sender.
\<close>

theorem overall_filter_is_whole_table:
  "fetch_stats ''Overall'' df
     = (length df,
        sum_list (map (\<lambda>r. length (py_split (message_content r))) df),
        length (filter (\<lambda>r. message_content r = ''<Media omitted>'') df),
        length (filter (\<lambda>r. re_contains link_pattern (message_content r)) df))
   \<and> fst (emoji_analysis EMOJI_DATA sort_values df ''Overall'')
     = length (concat (map (\<lambda>r. extract_emojis EMOJI_DATA (message_content r)) df))
   \<and> fst (plot_monthly_timeline ''Overall'' df)
     = groupby_size (map (\<lambda>r. strftime_Ym (to_period_M (date r))) df)
   \<and> plot_daily_timeline ''Overall'' df = groupby_size (map (\<lambda>r. dt_date (date r)) df)
   \<and> map snd (fst (fst (plot_interactive_activity_analysis df ''Overall'')))
     = map (\<lambda>c. length (filter (\<lambda>r. day_name (date r) = c) df)) ordered_days
   \<and> snd (fst (plot_interactive_activity_analysis df ''Overall''))
     = groupby_size (map (\<lambda>r. dt_hour (date r)) df)
   \<and> ((\<exists>r \<in> set df. user r = ''Overall'') \<and> (\<exists>r \<in> set df. user r \<noteq> ''Overall'') \<longrightarrow>
        select_user selected_user df \<noteq> filter (\<lambda>r. user r = ''Overall'') df)
   \<and> hd (get_user_list df) = ''Overall''
   \<and> ((\<exists>r \<in> set df. user r = ''Overall'') \<longrightarrow> ''Overall'' \<in> set (tl (get_user_list df)))"
proof (intro conjI)
  show "fetch_stats ''Overall'' df
     = (length df,
        sum_list (map (\<lambda>r. length (py_split (message_content r))) df),
        length (filter (\<lambda>r. message_content r = ''<Media omitted>'') df),
        length (filter (\<lambda>r. re_contains link_pattern (message_content r)) df))"
    by (simp add: fetch_stats_def Let_def select_user_Overall)
  show "fst (emoji_analysis EMOJI_DATA sort_values df ''Overall'')
     = length (concat (map (\<lambda>r. extract_emojis EMOJI_DATA (message_content r)) df))"
    by (simp add: emoji_analysis_def Let_def select_user_Overall o_def sum_counts_unique)
  show "fst (plot_monthly_timeline ''Overall'' df)
     = groupby_size (map (\<lambda>r. strftime_Ym (to_period_M (date r))) df)"
    by (simp add: plot_monthly_timeline_def Let_def select_user_Overall o_def)
  show "plot_daily_timeline ''Overall'' df = groupby_size (map (\<lambda>r. dt_date (date r)) df)"
    by (simp add: plot_daily_timeline_def Let_def select_user_Overall)
  show "map snd (fst (fst (plot_interactive_activity_analysis df ''Overall'')))
     = map (\<lambda>c. length (filter (\<lambda>r. day_name (date r) = c) df)) ordered_days"
    by (simp add: weekly_activity_unfold select_user_Overall o_def)
  show "snd (fst (plot_interactive_activity_analysis df ''Overall''))
     = groupby_size (map (\<lambda>r. dt_hour (date r)) df)"
    by (simp add: plot_interactive_activity_analysis_def Let_def select_user_Overall o_def)
  show "(\<exists>r \<in> set df. user r = ''Overall'') \<and> (\<exists>r \<in> set df. user r \<noteq> ''Overall'') \<longrightarrow>
        select_user selected_user df \<noteq> filter (\<lambda>r. user r = ''Overall'') df"
    using select_user_never_the_sender by blast
  show "hd (get_user_list df) = ''Overall''"
    by (simp add: get_user_list_unfold)
  show "(\<exists>r \<in> set df. user r = ''Overall'') \<longrightarrow> ''Overall'' \<in> set (tl (get_user_list df))"
    using sender_Overall_listed by blast
qed


theorem overall_filter_is_whole_table_witness:
  "\<not> isl (preprocess ''1/1/24, 9:00 - Overall: hi\<newline>1/1/24, 9:05 - Bob: yo yo'')
   \<and> map user (projr (preprocess ''1/1/24, 9:00 - Overall: hi\<newline>1/1/24, 9:05 - Bob: yo yo''))
      = [''Overall'', ''Bob'']
   \<and> fetch_stats ''Overall''
        (projr (preprocess ''1/1/24, 9:00 - Overall: hi\<newline>1/1/24, 9:05 - Bob: yo yo''))
      = (2, 3, 0, 0)
   \<and> select_user ''Overall''
        (projr (preprocess ''1/1/24, 9:00 - Overall: hi\<newline>1/1/24, 9:05 - Bob: yo yo''))
      \<noteq> filter (\<lambda>r. user r = ''Overall'')
        (projr (preprocess ''1/1/24, 9:00 - Overall: hi\<newline>1/1/24, 9:05 - Bob: yo yo''))
   \<and> get_user_list
        (projr (preprocess ''1/1/24, 9:00 - Overall: hi\<newline>1/1/24, 9:05 - Bob: yo yo''))
      = [''Overall'', ''Bob'', ''Overall'']
   \<and> ''Overall'' \<in> set (tl (get_user_list
        (projr (preprocess ''1/1/24, 9:00 - Overall: hi\<newline>1/1/24, 9:05 - Bob: yo yo''))))"
proof -
  let ?D = "''1/1/24, 9:00 - Overall: hi\<newline>1/1/24, 9:05 - Bob: yo yo''"
  let ?df = "projr (preprocess ?D)"
  have ok: "\<not> isl (preprocess ?D)"
    by code_simp
  have users: "map user ?df = [''Overall'', ''Bob'']"
    by code_simp
  have l: "get_user_list ?df = [''Overall'', ''Bob'', ''Overall'']"
    by code_simp
  have stats: "(length ?df,
        sum_list (map (\<lambda>r. length (py_split (message_content r))) ?df),
        length (filter (\<lambda>r. message_content r = ''<Media omitted>'') ?df),
        length (filter (\<lambda>r. re_contains link_pattern (message_content r)) ?df))
      = (2, 3, 0, 0)"
    by code_simp
  have h: "\<exists>r \<in> set ?df. user r = ''Overall''" "\<exists>r \<in> set ?df. user r \<noteq> ''Overall''"
    by code_simp+
  note t = overall_filter_is_whole_table [of ?df _ _ "''Overall''"]
  from t stats have "fetch_stats ''Overall'' ?df = (2, 3, 0, 0)"
    by (simp only:)
  moreover from t h have "select_user ''Overall'' ?df \<noteq> filter (\<lambda>r. user r = ''Overall'') ?df"
    by blast
  moreover from t h have "''Overall'' \<in> set (tl (get_user_list ?df))"
    by blast
  ultimately show ?thesis using ok users l by (intro conjI)
qed

section \<open>Effects of helper.py on the table\<close>



























end
